theory Spec2Isabelle
  imports Main "HOL-Library.Word"
begin

unbundle bit_operations_syntax

section \<open>forge\_ds\_store: the byte cursor, the block allocator, the leaf index\<close>

text \<open>
  A shallow embedding of \<^verbatim>\<open>src/forge_ds_store.cpp\<close>. Machine integers are words of the
  width the source declares (\<^verbatim>\<open>uint8_t\<close>, \<^verbatim>\<open>uint16_t\<close>, \<^verbatim>\<open>uint32_t\<close>), so every
  addition wraps as it does in C++. A C string is modelled by its contents before the
  terminating NUL, so \<^verbatim>\<open>strlen\<close> is \<open>length\<close>.
\<close>

type_synonym u8 = "8 word"
type_synonym u16 = "16 word"
type_synonym u32 = "32 word"

text \<open>
  Ways in which a run of the program stops without a result: the usage message with
  \<^verbatim>\<open>exit(1)\<close>; a failed \<^verbatim>\<open>assert\<close>, with the asserted expression; the
  \<^verbatim>\<open>std::out_of_range\<close> thrown by \<^verbatim>\<open>vector::at\<close>; and the two places where the C++
  is undefined: a store through the unchecked \<^verbatim>\<open>operator[]\<close> (or \<^verbatim>\<open>memcpy\<close>) outside
  the buffer, and \<^verbatim>\<open>__builtin_clz(0)\<close>. The undefined cases are errors of their own, so
  that nothing is proved from them.
\<close>

datatype error = Usage | AssertFailed string | OutOfRange | BufferOverflow | ClzZero

definition bind :: "error + 'a \<Rightarrow> ('a \<Rightarrow> error + 'b) \<Rightarrow> error + 'b" where
  "bind m f = (case m of Inl e \<Rightarrow> Inl e | Inr x \<Rightarrow> f x)"

subsection \<open>Record: a fixed-size byte buffer with a write cursor\<close>

record Record =
  bytes :: "u8 list"
  curOffset :: u32

text \<open>\<^verbatim>\<open>Record(uint32_t size)\<close>: \<open>size\<close> zero bytes, cursor at 0.\<close>

definition newRecord :: "u32 \<Rightarrow> Record" where
  "newRecord sz = \<lparr>bytes = replicate (unat sz) 0, curOffset = 0\<rparr>"

text \<open>\<^verbatim>\<open>d[i] = v\<close> for a 32-bit index expression \<open>i\<close>.\<close>

definition store :: "u8 list \<Rightarrow> u32 \<Rightarrow> u8 \<Rightarrow> error + u8 list" where
  "store d i v = (if unat i < length d then Inr (d[unat i := v]) else Inl BufferOverflow)"

definition writeInt8 :: "'a Record_scheme \<Rightarrow> u8 \<Rightarrow> error + 'a Record_scheme" where
  "writeInt8 r v =
     bind (store (bytes r) (curOffset r) v) (\<lambda>d.
     Inr (r\<lparr>bytes := d, curOffset := curOffset r + 1\<rparr>))"

definition writeInt16 :: "'a Record_scheme \<Rightarrow> u16 \<Rightarrow> error + 'a Record_scheme" where
  "writeInt16 r v =
     bind (store (bytes r) (curOffset r + 1) (ucast v)) (\<lambda>d.
     bind (store d (curOffset r + 0) (ucast (drop_bit 8 v))) (\<lambda>d.
     Inr (r\<lparr>bytes := d, curOffset := curOffset r + 2\<rparr>)))"

definition writeInt32 :: "'a Record_scheme \<Rightarrow> u32 \<Rightarrow> error + 'a Record_scheme" where
  "writeInt32 r v =
     bind (store (bytes r) (curOffset r + 3) (ucast v)) (\<lambda>d.
     bind (store d (curOffset r + 2) (ucast (drop_bit 8 v))) (\<lambda>d.
     bind (store d (curOffset r + 1) (ucast (drop_bit 16 v))) (\<lambda>d.
     bind (store d (curOffset r + 0) (ucast (drop_bit 24 v))) (\<lambda>d.
     Inr (r\<lparr>bytes := d, curOffset := curOffset r + 4\<rparr>)))))"

text \<open>
  The loop \<^verbatim>\<open>for(uint32_t i=0;i<len;i++) d[curOffset + i] = s[i];\<close> shared by
  \<^verbatim>\<open>writeStr\<close> and \<^verbatim>\<open>writeData\<close>: \<open>i\<close> is the loop counter, the list holds
  \<open>s[i], s[i+1], ...\<close>.
\<close>

fun storeLoop :: "u8 list \<Rightarrow> u32 \<Rightarrow> u32 \<Rightarrow> u8 list \<Rightarrow> error + u8 list" where
  "storeLoop d off i [] = Inr d"
| "storeLoop d off i (b # bs) = bind (store d (off + i) b) (\<lambda>d'. storeLoop d' off (i + 1) bs)"

text \<open>
  \<^verbatim>\<open>writeStr\<close>: \<^verbatim>\<open>uint32_t len = strlen(s)\<close> truncates the length to 32 bits, and the
  loop copies \<open>len\<close> characters.
\<close>

definition writeStr :: "'a Record_scheme \<Rightarrow> string \<Rightarrow> error + 'a Record_scheme" where
  "writeStr r s =
     (let len = (word_of_nat (length s) :: u32) in
      bind (storeLoop (bytes r) (curOffset r) 0 (map of_char (take (unat len) s))) (\<lambda>d.
      Inr (r\<lparr>bytes := d, curOffset := curOffset r + len\<rparr>)))"

text \<open>
  \<^verbatim>\<open>writeData\<close>: the loop condition \<^verbatim>\<open>i < data.size()\<close> compares in \<^verbatim>\<open>size_t\<close>. With
  \<open>2^32\<close> bytes or more the 32-bit counter runs through every index, and since a buffer
  holds fewer than \<open>2^32\<close> bytes one of the stores is outside it.
\<close>

definition writeData :: "'a Record_scheme \<Rightarrow> u8 list \<Rightarrow> error + 'a Record_scheme" where
  "writeData r data =
     (if length data \<ge> 2 ^ 32 then Inl BufferOverflow
      else bind (storeLoop (bytes r) (curOffset r) 0 data) (\<lambda>d.
           Inr (r\<lparr>bytes := d, curOffset := curOffset r + word_of_nat (length data)\<rparr>)))"

definition seek :: "'a Record_scheme \<Rightarrow> u32 \<Rightarrow> 'a Record_scheme" where
  "seek r off = r\<lparr>curOffset := off\<rparr>"

subsection \<open>Block: a record with an address\<close>

record Block = Record +
  addr :: u32

definition newBlock :: "u32 \<Rightarrow> u32 \<Rightarrow> Block" where
  "newBlock a sz = \<lparr>bytes = replicate (unat sz) 0, curOffset = 0, addr = a\<rparr>"

definition getAddr :: "Block \<Rightarrow> u32" where
  "getAddr b = addr b"

text \<open>\<^verbatim>\<open>b.size()\<close> of the underlying vector, as the 32-bit value the callers store it in.\<close>

definition bsize :: "Block \<Rightarrow> u32" where
  "bsize b = word_of_nat (length (bytes b))"

subsection \<open>BuddyAllocator\<close>

record BuddyAllocator =
  blocks :: "Block list"
  curAddr :: u32

definition powerOf2Ceil :: "u32 \<Rightarrow> u32" where
  "powerOf2Ceil v0 =
     (let v = v0 - 1;
          v = v OR drop_bit 1 v;
          v = v OR drop_bit 2 v;
          v = v OR drop_bit 4 v;
          v = v OR drop_bit 8 v;
          v = v OR drop_bit 16 v
      in v + 1)"

text \<open>
  \<^verbatim>\<open>allocateBlock\<close>: returns the block id and the updated allocator. The id is
  \<^verbatim>\<open>blocks.size() - 2\<close>, computed in \<^verbatim>\<open>size_t\<close> and truncated to 32 bits by the return.
\<close>

definition allocateBlock :: "BuddyAllocator \<Rightarrow> u32 \<Rightarrow> u32 \<times> BuddyAllocator" where
  "allocateBlock a sz =
     (let blockSize = powerOf2Ceil sz;
          bs = blocks a @ [newBlock (curAddr a) blockSize]
      in (word_of_int (int (length bs) - 2),
          \<lparr>blocks = bs, curAddr = curAddr a + blockSize\<rparr>))"

text \<open>The constructor: the header block, then the metadata block.\<close>

definition newBuddyAllocator :: BuddyAllocator where
  "newBuddyAllocator =
     (let a = \<lparr>blocks = [], curAddr = 0\<rparr>;
          a = snd (allocateBlock a 32);
          a = snd (allocateBlock a 2048)
      in a)"

text \<open>
  \<^verbatim>\<open>getBlock\<close>: the assertion, then \<^verbatim>\<open>blocks.at(blockId + 1)\<close>. The index
  expression \<^verbatim>\<open>blockId + 1\<close> is computed in 32 bits. The model returns the block's
  value; a caller that writes through the returned reference stores the result back with
  \<open>setBlock\<close>.
\<close>

definition blockIndex :: "u32 \<Rightarrow> nat" where
  "blockIndex blockId = unat (blockId + 1)"

definition getBlock :: "BuddyAllocator \<Rightarrow> u32 \<Rightarrow> error + Block" where
  "getBlock a blockId =
     (if blockId = 0xffffffff then Inl (AssertFailed ''blockId != 0xffffffff'')
      else if blockIndex blockId < length (blocks a) then Inr (blocks a ! blockIndex blockId)
      else Inl OutOfRange)"

definition setBlock :: "BuddyAllocator \<Rightarrow> u32 \<Rightarrow> Block \<Rightarrow> BuddyAllocator" where
  "setBlock a blockId b = a\<lparr>blocks := (blocks a)[blockIndex blockId := b]\<rparr>"

text \<open>A run of \<^verbatim>\<open>allocateBlock\<close> calls, one per requested size, ids dropped.\<close>

fun allocateBlocks :: "BuddyAllocator \<Rightarrow> u32 list \<Rightarrow> BuddyAllocator" where
  "allocateBlocks a [] = a"
| "allocateBlocks a (n # ns) = allocateBlocks (snd (allocateBlock a n)) ns"


text \<open>The allocator's list of blocks as (address, size) pairs.\<close>

definition layout :: "BuddyAllocator \<Rightarrow> (u32 \<times> nat) list" where
  "layout a = map (\<lambda>b. (addr b, length (bytes b))) (blocks a)"

text \<open>
  What a client can do to an allocator: construct it, allocate, and write through the
  reference \<^verbatim>\<open>getBlock\<close> returns with the \<^verbatim>\<open>Record\<close> interface, which changes bytes and
  cursor of that block and neither its length nor its address.
\<close>

inductive reachable :: "BuddyAllocator \<Rightarrow> bool" where
  r_init: "reachable newBuddyAllocator"
| r_alloc: "reachable a \<Longrightarrow> reachable (snd (allocateBlock a n))"
| r_write: "reachable a \<Longrightarrow> getBlock a blockId = Inr b \<Longrightarrow> length bs = length (bytes b) \<Longrightarrow>
          reachable (setBlock a blockId (b\<lparr>bytes := bs, curOffset := off\<rparr>))"

subsection \<open>Byte sequences used to state what the writers store\<close>

definition be16 :: "u16 \<Rightarrow> u8 list" where
  "be16 v = [ucast (drop_bit 8 v), ucast v]"

definition be32 :: "u32 \<Rightarrow> u8 list" where
  "be32 v = [ucast (drop_bit 24 v), ucast (drop_bit 16 v), ucast (drop_bit 8 v), ucast v]"

text \<open>
  \<open>patch d off bs\<close>: the buffer \<open>d\<close> with \<open>bs\<close> stored at offset \<open>off\<close>; the buffer keeps
  its length.
\<close>

definition patch :: "'a list \<Rightarrow> nat \<Rightarrow> 'a list \<Rightarrow> 'a list" where
  "patch d off bs = take (length d) (take off d @ bs @ drop (off + length bs) d)"

text \<open>\<open>putAt r bs\<close>: the record after \<open>bs\<close> was written at its cursor.\<close>

definition putAt :: "'a Record_scheme \<Rightarrow> u8 list \<Rightarrow> 'a Record_scheme" where
  "putAt r bs = r\<lparr>bytes := patch (bytes r) (unat (curOffset r)) bs,
                  curOffset := curOffset r + word_of_nat (length bs)\<rparr>"

text \<open>\<open>fits r n\<close>: \<open>n\<close> more bytes at the cursor stay inside the buffer.\<close>

definition fits :: "'a Record_scheme \<Rightarrow> nat \<Rightarrow> bool" where
  "fits r n \<longleftrightarrow> unat (curOffset r) + n \<le> length (bytes r) \<and> length (bytes r) < 2 ^ 32"

text \<open>Big-endian reads, for the decoders below.\<close>

definition rd16 :: "u8 list \<Rightarrow> u16" where
  "rd16 bs = (case bs of a # b # _ \<Rightarrow> push_bit 8 (ucast a) OR ucast b | _ \<Rightarrow> 0)"

definition rd32 :: "u8 list \<Rightarrow> u32" where
  "rd32 bs = (case bs of a # b # c # d # _ \<Rightarrow>
                push_bit 24 (ucast a) OR push_bit 16 (ucast b) OR push_bit 8 (ucast c) OR ucast d
              | _ \<Rightarrow> 0)"

subsection \<open>createMetaDataBlock and writeFile\<close>

text \<open>A counted \<^verbatim>\<open>for\<close> loop over the given indices, stopping at the first error.\<close>

fun forLoop :: "nat list \<Rightarrow> (nat \<Rightarrow> 's \<Rightarrow> error + 's) \<Rightarrow> 's \<Rightarrow> error + 's" where
  "forLoop [] body s = Inr s"
| "forLoop (i # is) body s = bind (body i s) (forLoop is body)"

text \<open>\<^verbatim>\<open>__builtin_clz\<close>: the number of zero bits above the highest set bit.\<close>

definition clz :: "u32 \<Rightarrow> nat" where
  "clz x = length (takeWhile (\<lambda>i. \<not> bit x i) (rev [0..<32]))"

definition getLog2 :: "u32 \<Rightarrow> error + u32" where
  "getLog2 blockSize =
     (if blockSize = 0 then Inl ClzZero else Inr (word_of_int (31 - int (clz blockSize))))"

text \<open>
  One round of the 256-entry table loop. The block read, \<^verbatim>\<open>blocks[i + 1]\<close>, may be the
  metadata block that is being written; only its size and address are read, and the writes
  change neither, so they are taken from the allocator as it was on entry.
\<close>

definition tableStep :: "BuddyAllocator \<Rightarrow> nat \<Rightarrow> Block \<Rightarrow> error + Block" where
  "tableStep a i metaData =
     (if i < length (blocks a) - 1 then
        (let b = blocks a ! (i + 1) in
         bind (getLog2 (bsize b)) (\<lambda>log2Size.
         let addr = getAddr b in
         if addr AND 0x1f \<noteq> 0 then Inl (AssertFailed ''(addr & 0x1f) == 0'')
         else writeInt32 metaData (addr OR log2Size)))
      else writeInt32 metaData 0)"

text \<open>One round of the free-list loop, on the metadata block and the member \<^verbatim>\<open>curAddr\<close>.\<close>

definition freeListStep :: "nat \<Rightarrow> Block \<times> u32 \<Rightarrow> error + Block \<times> u32" where
  "freeListStep i = (\<lambda>(metaData, curAddr).
     (let mask = (push_bit i 1 :: u32) in
      if curAddr AND mask \<noteq> 0 then
        bind (writeInt32 metaData 1) (\<lambda>metaData.
        bind (writeInt32 metaData curAddr) (\<lambda>metaData.
        Inr (metaData, curAddr + mask)))
      else
        bind (writeInt32 metaData 0) (\<lambda>metaData.
        Inr (metaData, curAddr))))"

definition createMetaDataBlock :: "BuddyAllocator \<Rightarrow> u32 \<Rightarrow> error + BuddyAllocator" where
  "createMetaDataBlock a bTreeBlockId =
     (if \<not> 1 < length (blocks a) then Inl OutOfRange
      else
        let metaData = blocks a ! 1 in
        bind (writeInt32 metaData (word_of_int (int (length (blocks a)) - 1))) (\<lambda>metaData.
        bind (writeInt32 metaData 0) (\<lambda>metaData.
        bind (forLoop [0..<256] (tableStep a) metaData) (\<lambda>metaData.
        bind (writeInt32 metaData 1) (\<lambda>metaData.
        bind (writeInt8 metaData 4) (\<lambda>metaData.
        bind (writeStr metaData ''DSDB'') (\<lambda>metaData.
        bind (writeInt32 metaData bTreeBlockId) (\<lambda>metaData.
        bind (forLoop [0..<32] freeListStep (metaData, curAddr a)) (\<lambda>(metaData, curAddr').
        if curAddr' \<noteq> 0 then Inl (AssertFailed ''curAddr == 0'')
        else
          let header = blocks a ! 0 in
          bind (writeStr header ''Bud1'') (\<lambda>header.
          bind (writeInt32 header (getAddr metaData)) (\<lambda>header.
          bind (writeInt32 header (bsize metaData)) (\<lambda>header.
          bind (writeInt32 header (getAddr metaData)) (\<lambda>header.
          Inr \<lparr>blocks = (blocks a)[1 := metaData, 0 := header],
               curAddr = curAddr'\<rparr>)))))))))))))"

text \<open>
  \<^verbatim>\<open>writeFile\<close>: the bytes handed to \<^verbatim>\<open>fwrite\<close>, in order. The four bytes of
  \<^verbatim>\<open>htonl(1)\<close> in memory are the big-endian encoding of 1.
\<close>

definition writeFile :: "BuddyAllocator \<Rightarrow> u8 list" where
  "writeFile a = be32 1 @ concat (map bytes (blocks a))"

text \<open>
  The value of the local bump pointer when the free-list loop reaches bucket \<open>i\<close>, from
  the loop body, and the bytes the loop stores for that bucket.
\<close>

fun freeAddr :: "u32 \<Rightarrow> nat \<Rightarrow> u32" where
  "freeAddr c 0 = c"
| "freeAddr c (Suc i) = (if bit (freeAddr c i) i then freeAddr c i + push_bit i 1 else freeAddr c i)"

definition bucket :: "u32 \<Rightarrow> nat \<Rightarrow> u8 list" where
  "bucket c i = (if bit (freeAddr c i) i then be32 1 @ be32 (freeAddr c i) else be32 0)"

text \<open>
  Reading the address table back: the block count at offset 0, then one 32-bit entry per
  block from offset 8, the low five bits the logarithm of the size, the rest the address.
\<close>

definition decodeTable :: "u8 list \<Rightarrow> (u32 \<times> nat) list" where
  "decodeTable m =
     map (\<lambda>i. let e = rd32 (drop (8 + 4 * i) m) in (e AND NOT 0x1f, 2 ^ unat (e AND 0x1f)))
       [0..<min 256 (unat (rd32 m))]"

subsection \<open>BTree: the single leaf page\<close>

record BTree =
  buddy :: BuddyAllocator
  entryCount :: u32
  curPageId :: u32

text \<open>
  \<^verbatim>\<open>Block& b = buddy.getBlock(curPageId);\<close> followed by writes through \<open>b\<close>: the block
  is fetched, written, and stored back in the allocator.
\<close>

definition onPage :: "BTree \<Rightarrow> (Block \<Rightarrow> error + Block) \<Rightarrow> error + BTree" where
  "onPage t f =
     bind (getBlock (buddy t) (curPageId t)) (\<lambda>b.
     bind (f b) (\<lambda>b'.
     Inr (t\<lparr>buddy := setBlock (buddy t) (curPageId t) b'\<rparr>)))"

text \<open>
  \<^verbatim>\<open>writeInt16(s[i])\<close> converts a \<^verbatim>\<open>char\<close> to \<^verbatim>\<open>uint16_t\<close>. \<^verbatim>\<open>char\<close> is signed on the
  platforms the tool is built for, so a byte of 128 or more is sign-extended; characters
  below 128 come out the same either way.
\<close>

definition char16 :: "char \<Rightarrow> u16" where
  "char16 c = scast (of_char c :: u8)"

fun writeChars16 :: "Block \<Rightarrow> string \<Rightarrow> error + Block" where
  "writeChars16 b [] = Inr b"
| "writeChars16 b (c # cs) = bind (writeInt16 b (char16 c)) (\<lambda>b. writeChars16 b cs)"

definition writeFileName :: "BTree \<Rightarrow> string \<Rightarrow> error + BTree" where
  "writeFileName t s =
     onPage t (\<lambda>b.
       let nameLen = (word_of_nat (length s) :: u32) in
       bind (writeInt32 b nameLen) (\<lambda>b.
       writeChars16 b (take (unat nameLen) s)))"

text \<open>The constructor \<^verbatim>\<open>BTree(BuddyAllocator& a)\<close>.\<close>

definition newBTree :: "BuddyAllocator \<Rightarrow> error + BTree" where
  "newBTree a =
     (let (pageId, a) = allocateBlock a 2048;
          t = \<lparr>buddy = a, entryCount = 0, curPageId = pageId\<rparr>
      in onPage t (\<lambda>b.
           bind (writeInt32 b 0) (\<lambda>b.
           writeInt32 b 0)))"

definition addBlob :: "BTree \<Rightarrow> string \<Rightarrow> string \<Rightarrow> u8 list \<Rightarrow> error + BTree" where
  "addBlob t fileName recordType data =
     (let t = t\<lparr>entryCount := entryCount t + 1\<rparr> in
      bind (writeFileName t fileName) (\<lambda>t.
      onPage t (\<lambda>b.
        bind (writeStr b recordType) (\<lambda>b.
        bind (writeStr b ''blob'') (\<lambda>b.
        bind (writeInt32 b (word_of_nat (length data))) (\<lambda>b.
        writeData b data))))))"

definition addBool :: "BTree \<Rightarrow> string \<Rightarrow> string \<Rightarrow> u8 \<Rightarrow> error + BTree" where
  "addBool t fileName recordType v =
     (let t = t\<lparr>entryCount := entryCount t + 1\<rparr> in
      bind (writeFileName t fileName) (\<lambda>t.
      onPage t (\<lambda>b.
        bind (writeStr b recordType) (\<lambda>b.
        bind (writeStr b ''bool'') (\<lambda>b.
        writeInt8 b v)))))"

definition addShort :: "BTree \<Rightarrow> string \<Rightarrow> string \<Rightarrow> u16 \<Rightarrow> error + BTree" where
  "addShort t fileName recordType v =
     (let t = t\<lparr>entryCount := entryCount t + 1\<rparr> in
      bind (writeFileName t fileName) (\<lambda>t.
      onPage t (\<lambda>b.
        bind (writeStr b recordType) (\<lambda>b.
        bind (writeStr b ''shor'') (\<lambda>b.
        writeInt32 b (ucast v))))))"

text \<open>\<^verbatim>\<open>finish\<close>: returns the id of the master block and the tree.\<close>

definition finish :: "BTree \<Rightarrow> error + u32 \<times> BTree" where
  "finish t =
     bind (onPage t (\<lambda>b. writeInt32 (seek b 4) (entryCount t))) (\<lambda>t.
     let rootBlockID = curPageId t;
         (masterId, a) = allocateBlock (buddy t) 20;
         t = t\<lparr>buddy := a, curPageId := masterId\<rparr>
     in bind (onPage t (\<lambda>master.
          bind (writeInt32 master rootBlockID) (\<lambda>master.
          bind (writeInt32 master 0) (\<lambda>master.
          bind (writeInt32 master (entryCount t)) (\<lambda>master.
          bind (writeInt32 master 1) (\<lambda>master.
          writeInt32 master 4096)))))) (\<lambda>t.
        Inr (curPageId t, t)))"

text \<open>A run of add calls on the tree, in order.\<close>

datatype addCall =
  AddBlob string string "u8 list"
| AddBool string string u8
| AddShort string string u16

fun applyCall :: "BTree \<Rightarrow> addCall \<Rightarrow> error + BTree" where
  "applyCall t (AddBlob fileName recordType data) = addBlob t fileName recordType data"
| "applyCall t (AddBool fileName recordType v) = addBool t fileName recordType v"
| "applyCall t (AddShort fileName recordType v) = addShort t fileName recordType v"

fun applyCalls :: "BTree \<Rightarrow> addCall list \<Rightarrow> error + BTree" where
  "applyCalls t [] = Inr t"
| "applyCalls t (c # cs) = bind (applyCall t c) (\<lambda>t. applyCalls t cs)"

text \<open>The bytes one add call stores on the page.\<close>

definition encodeName :: "string \<Rightarrow> u8 list" where
  "encodeName s = be32 (word_of_nat (length s)) @ concat (map (\<lambda>c. be16 (char16 c)) s)"

fun encodeEntry :: "addCall \<Rightarrow> u8 list" where
  "encodeEntry (AddBlob fileName recordType data) =
     encodeName fileName @ map of_char recordType @ map of_char ''blob''
     @ be32 (word_of_nat (length data)) @ data"
| "encodeEntry (AddBool fileName recordType v) =
     encodeName fileName @ map of_char recordType @ map of_char ''bool'' @ [v]"
| "encodeEntry (AddShort fileName recordType v) =
     encodeName fileName @ map of_char recordType @ map of_char ''shor'' @ be32 (ucast v)"

text \<open>
  Reading a leaf page back: the entry count at offset 4, then the entries from offset 8.
  An entry is a name (a 32-bit count of UTF-16 units, then the units), a four-byte record
  type, a four-byte data type and the payload that data type announces.
\<close>

datatype payload = Blob "u8 list" | Bool u8 | Short u32

type_synonym entry = "u16 list \<times> u8 list \<times> payload"

fun rd16s :: "u8 list \<Rightarrow> u16 list" where
  "rd16s (a # b # bs) = rd16 [a, b] # rd16s bs"
| "rd16s _ = []"

definition decodeEntry :: "u8 list \<Rightarrow> (entry \<times> u8 list) option" where
  "decodeEntry bs =
     (let n = unat (rd32 bs) in
      if length bs < 4 + 2 * n + 8 then None
      else
        let name = rd16s (take (2 * n) (drop 4 bs));
            rest = drop (4 + 2 * n) bs;
            rtype = take 4 rest;
            tag = take 4 (drop 4 rest);
            rest = drop 8 rest
        in if tag = map of_char ''blob'' then
             (let len = unat (rd32 rest) in
              if length rest < 4 + len then None
              else Some ((name, rtype, Blob (take len (drop 4 rest))), drop (4 + len) rest))
           else if tag = map of_char ''bool'' then
             (case rest of [] \<Rightarrow> None | v # rest \<Rightarrow> Some ((name, rtype, Bool v), rest))
           else if tag = map of_char ''shor'' then
             (if length rest < 4 then None
              else Some ((name, rtype, Short (rd32 rest)), drop 4 rest))
           else None)"

fun decodeEntries :: "nat \<Rightarrow> u8 list \<Rightarrow> entry list option" where
  "decodeEntries 0 bs = Some []"
| "decodeEntries (Suc n) bs =
     (case decodeEntry bs of
        None \<Rightarrow> None
      | Some (e, rest) \<Rightarrow> map_option ((#) e) (decodeEntries n rest))"

definition decodeLeaf :: "u8 list \<Rightarrow> entry list option" where
  "decodeLeaf page = decodeEntries (unat (rd32 (drop 4 page))) (drop 8 page)"

subsection \<open>createAliasFile\<close>

text \<open>
  A store of \<open>src\<close> at byte offset \<open>off\<close> of the vector's buffer, by \<^verbatim>\<open>memcpy\<close> or through
  a field of the packed struct laid over it.
\<close>

definition memcpy :: "u8 list \<Rightarrow> nat \<Rightarrow> u8 list \<Rightarrow> error + u8 list" where
  "memcpy d off src =
     (if off + length src \<le> length d then Inr (patch d off src) else Inl BufferOverflow)"

text \<open>
  The byte offsets are those of the packed struct \<^verbatim>\<open>AliasFile\<close>: \<^verbatim>\<open>recordSize\<close> 4,
  \<^verbatim>\<open>recordVersion\<close> 6, \<^verbatim>\<open>volumeLenAndName\<close> 10, \<^verbatim>\<open>volumeSig\<close> 42, \<^verbatim>\<open>parentInode\<close> 46,
  \<^verbatim>\<open>fileLenAndName\<close> 50, \<^verbatim>\<open>fileInode\<close> 114, \<^verbatim>\<open>fileFrom\<close> 130, \<^verbatim>\<open>fileTo\<close> 132,
  \<^verbatim>\<open>extraData\<close> 150, which is \<^verbatim>\<open>sizeof(AliasFile)\<close>.
\<close>

definition createAliasFile :: "string \<Rightarrow> string \<Rightarrow> error + u8 list" where
  "createAliasFile volumeName fileName =
     (let volumeNameLen = (word_of_nat (length volumeName) :: u32);
          fileNameLen = (word_of_nat (length fileName) :: u32);
          fullPathSize = volumeNameLen + fileNameLen + 1;
          fullPathSize = (if fullPathSize AND 1 \<noteq> 0 then fullPathSize + 1 else fullPathSize);
          recordSize = 150 + 8 + fullPathSize;
          vol = map of_char (take (unat volumeNameLen) volumeName);
          fil = map of_char (take (unat fileNameLen) fileName);
          ret = replicate (unat recordSize) 0
      in bind (memcpy ret 4 (be16 (ucast recordSize))) (\<lambda>ret.
         bind (memcpy ret 6 (be16 2)) (\<lambda>ret.
         bind (memcpy ret 10 [ucast volumeNameLen]) (\<lambda>ret.
         bind (memcpy ret 11 vol) (\<lambda>ret.
         bind (memcpy ret 42 (be16 0x482b)) (\<lambda>ret.
         bind (memcpy ret 46 (be32 2)) (\<lambda>ret.
         bind (memcpy ret 50 [ucast fileNameLen]) (\<lambda>ret.
         bind (memcpy ret 51 fil) (\<lambda>ret.
         bind (memcpy ret 114 (be32 0)) (\<lambda>ret.
         bind (memcpy ret 130 (be16 0xffff)) (\<lambda>ret.
         bind (memcpy ret 132 (be16 0xffff)) (\<lambda>ret.
         bind (memcpy ret 150 (be16 2)) (\<lambda>ret.
         bind (memcpy ret 152 (be16 (ucast fullPathSize))) (\<lambda>ret.
         bind (memcpy ret 154 vol) (\<lambda>ret.
         bind (memcpy ret (154 + unat volumeNameLen) [of_char CHR '':'']) (\<lambda>ret.
         bind (memcpy ret (155 + unat volumeNameLen) fil) (\<lambda>ret.
         bind (memcpy ret (154 + unat fullPathSize) [0xff]) (\<lambda>ret.
         bind (memcpy ret (155 + unat fullPathSize) [0xff]) (\<lambda>ret.
         Inr ret)))))))))))))))))))"

text \<open>
  The value \<^verbatim>\<open>fullPathSize\<close> ends with: the length of \<^verbatim>\<open>volumeName:fileName\<close>,
  rounded up to an even number.
\<close>

definition fullPath :: "string \<Rightarrow> string \<Rightarrow> nat" where
  "fullPath volumeName fileName =
     (let n = length volumeName + length fileName + 1 in if odd n then n + 1 else n)"

text \<open>
  Reading the trailer of an alias record back: the tag, the length field, that many bytes
  of path, and the two bytes that follow them. \<open>cstring\<close> reads the path bytes as a C
  string, up to the first zero byte.
\<close>

definition decodeTrailer :: "u8 list \<Rightarrow> u16 \<times> u16 \<times> u8 list \<times> u8 list" where
  "decodeTrailer r =
     (let extraData = drop 150 r;
          len = rd16 (drop 2 extraData)
      in (rd16 extraData, len, take (unat len) (drop 4 extraData),
          take 2 (drop (4 + unat len) extraData)))"

definition cstring :: "u8 list \<Rightarrow> string" where
  "cstring bs = map (\<lambda>b. char_of (unat b)) (takeWhile (\<lambda>b. b \<noteq> 0) bs)"

subsection \<open>getInt and main\<close>

text \<open>
  \<^verbatim>\<open>strtol(f, &endPtr, 10)\<close> in the C locale with a 64-bit \<^verbatim>\<open>long\<close>: the value, and the
  rest of the string from \<^verbatim>\<open>endPtr\<close> on. Without a digit nothing is converted and
  \<^verbatim>\<open>endPtr\<close> is \<open>f\<close>.
\<close>

definition isspace :: "char \<Rightarrow> bool" where
  "isspace c \<longleftrightarrow> (of_char c :: nat) = 32 \<or> (9 \<le> (of_char c :: nat) \<and> (of_char c :: nat) \<le> 13)"

definition isdigit :: "char \<Rightarrow> bool" where
  "isdigit c \<longleftrightarrow> 48 \<le> (of_char c :: nat) \<and> (of_char c :: nat) \<le> 57"

definition digitsValue :: "string \<Rightarrow> int" where
  "digitsValue ds = foldl (\<lambda>acc c. 10 * acc + (of_char c - 48)) 0 ds"

definition strtol :: "string \<Rightarrow> int \<times> string" where
  "strtol f =
     (let s = dropWhile isspace f;
          (neg, s) = (case s of
                        c # s' \<Rightarrow> if c = CHR ''-'' then (True, s')
                                 else if c = CHR ''+'' then (False, s') else (False, s)
                      | [] \<Rightarrow> (False, s));
          ds = takeWhile isdigit s
      in if ds = [] then (0, f)
         else (let v = (if neg then - digitsValue ds else digitsValue ds)
               in (max (- (2 ^ 63)) (min (2 ^ 63 - 1) v), dropWhile isdigit s)))"

definition getInt :: "string \<Rightarrow> error + u32" where
  "getInt f = (let (ret, endPtr) = strtol f in if endPtr \<noteq> [] then Inl Usage else Inr (word_of_int ret))"

text \<open>The loop over the file entries of \<^verbatim>\<open>main\<close>, on the arguments from \<^verbatim>\<open>argv[8]\<close> on.\<close>

fun addFiles :: "BTree \<Rightarrow> string list \<Rightarrow> error + BTree" where
  "addFiles t (fileName # x # y # rest) =
     bind (getInt x) (\<lambda>centerX.
     bind (getInt y) (\<lambda>centerY.
     let ilocRecord = newRecord 16 in
     bind (writeInt32 ilocRecord centerX) (\<lambda>ilocRecord.
     bind (writeInt32 ilocRecord centerY) (\<lambda>ilocRecord.
     bind (writeInt16 ilocRecord 0xffff) (\<lambda>ilocRecord.
     bind (writeInt16 ilocRecord 0xffff) (\<lambda>ilocRecord.
     bind (writeInt16 ilocRecord 0xffff) (\<lambda>ilocRecord.
     bind (addBlob t fileName ''Iloc'' (bytes ilocRecord)) (\<lambda>t.
     addFiles t rest))))))))"
| "addFiles t _ = Inr t"

text \<open>
  \<^verbatim>\<open>main\<close> up to the call of \<^verbatim>\<open>writeFile\<close>: the allocator that is written out. The
  three blobs built by laying a packed struct over a zeroed vector are given by their bytes.
\<close>

definition mainBuddy :: "string list \<Rightarrow> error + BuddyAllocator" where
  "mainBuddy argv =
     (if length argv < 8 \<or> (length argv - 8) mod 3 \<noteq> 0 then Inl Usage
      else
        let bgFileName = argv ! 2; bgWidth = argv ! 3; bgHeight = argv ! 4;
            volumeName = argv ! 5; iconSize = argv ! 6; textSize = argv ! 7
        in
        bind (createAliasFile volumeName bgFileName) (\<lambda>aliasFile.
        bind (newBTree newBuddyAllocator) (\<lambda>bTree.
        let PctB = map of_char ''PctB'' @ be32 (word_of_nat (length aliasFile)) @ replicate 4 0 in
        bind (addBlob bTree ''.'' ''BKGD'' PctB) (\<lambda>bTree.
        bind (addBool bTree ''.'' ''ICVO'' 1) (\<lambda>bTree.
        bind (getInt bgHeight) (\<lambda>height.
        bind (getInt bgWidth) (\<lambda>width.
        let Fw = be16 200 @ be16 300 @ be16 (ucast (200 + height)) @ be16 (ucast (300 + width))
                 @ map of_char ''icnv'' @ replicate 4 0 in
        bind (addBlob bTree ''.'' ''fwi0'' Fw) (\<lambda>bTree.
        bind (getInt iconSize) (\<lambda>icon.
        let ivData = map of_char ''icv4'' @ be16 (ucast icon) @ map of_char ''none''
                     @ map of_char ''botm'' @ replicate 12 0 in
        bind (addBlob bTree ''.'' ''icvo'' ivData) (\<lambda>bTree.
        bind (getInt textSize) (\<lambda>text.
        bind (addShort bTree ''.'' ''icvt'' (ucast text)) (\<lambda>bTree.
        bind (addBlob bTree ''.'' ''pict'' aliasFile) (\<lambda>bTree.
        bind (addFiles bTree (drop 8 argv)) (\<lambda>bTree.
        bind (finish bTree) (\<lambda>(bTreeBlockId, bTree).
        createMetaDataBlock (buddy bTree) bTreeBlockId)))))))))))))))"

text \<open>\<^verbatim>\<open>main\<close>: the name of the output file and the bytes written to it.\<close>

definition main :: "string list \<Rightarrow> error + string \<times> u8 list" where
  "main argv = bind (mainBuddy argv) (\<lambda>a. Inr (argv ! 1, writeFile a))"

text \<open>
  A tree whose current page is the block allocated last: \<open>bs\<close> are the blocks before it,
  the page has address \<open>a\<close> and size \<open>sz\<close> and \<open>pre\<close> has been written on it from offset 0,
  the bump pointer is \<open>ca\<close> and \<open>cnt\<close> entries have been counted.
\<close>

definition pageTree :: "Block list \<Rightarrow> u32 \<Rightarrow> u32 \<Rightarrow> u8 list \<Rightarrow> u32 \<Rightarrow> u32 \<Rightarrow> BTree" where
  "pageTree bs a sz pre ca cnt =
     \<lparr>buddy = \<lparr>blocks = bs @ [putAt (newBlock a sz) pre], curAddr = ca\<rparr>,
      entryCount = cnt, curPageId = word_of_int (int (length bs) - 1)\<rparr>"

text \<open>
  The tree of \<^verbatim>\<open>main\<close> while its leaf page is open: the allocator holds the header, the
  metadata block and the leaf page, on which \<open>pre\<close> has been written.
\<close>

definition leafTree :: "u8 list \<Rightarrow> u32 \<Rightarrow> BTree" where
  "leafTree pre cnt = pageTree [newBlock 0 32, newBlock 32 2048] 2080 2048 pre 4128 cnt"

text \<open>
  The leaf page and the master block as \<^verbatim>\<open>finish\<close> leaves them, and the tree after
  \<^verbatim>\<open>finish\<close>, whose current page is the master block, with \<open>post\<close> written behind the
  five words of the master block.
\<close>

definition finishedLeaf :: "u8 list \<Rightarrow> u32 \<Rightarrow> Block" where
  "finishedLeaf pre cnt =
     \<lparr>bytes = patch (patch (replicate 2048 0) 0 pre) 4 (be32 cnt), curOffset = 8, addr = 2080\<rparr>"

definition masterBytes :: "u32 \<Rightarrow> u8 list" where
  "masterBytes cnt = be32 1 @ be32 0 @ be32 cnt @ be32 1 @ be32 4096"

definition finishedTree :: "u8 list \<Rightarrow> u32 \<Rightarrow> u8 list \<Rightarrow> u32 \<Rightarrow> BTree" where
  "finishedTree pre cnt post cnt' =
     pageTree [newBlock 0 32, newBlock 32 2048, finishedLeaf pre cnt] 4128 32
       (masterBytes cnt @ post) 4160 cnt'"

text \<open>
  The bytes \<^verbatim>\<open>createMetaDataBlock\<close> stores: one table entry per round of the table loop,
  the whole metadata block, and the header block.
\<close>

definition tableEntry :: "BuddyAllocator \<Rightarrow> nat \<Rightarrow> u8 list" where
  "tableEntry a i =
     (if i < length (blocks a) - 1 then
        (case getLog2 (bsize (blocks a ! (i + 1))) of
           Inr log2Size \<Rightarrow> be32 (addr (blocks a ! (i + 1)) OR log2Size)
         | Inl e \<Rightarrow> [])
      else be32 0)"

definition metaBytes :: "BuddyAllocator \<Rightarrow> u32 \<Rightarrow> u8 list" where
  "metaBytes a bTreeBlockId =
     be32 (word_of_int (int (length (blocks a)) - 1)) @ be32 0
     @ concat (map (tableEntry a) [0..<256])
     @ be32 1 @ [4] @ map of_char ''DSDB'' @ be32 bTreeBlockId
     @ concat (map (bucket (curAddr a)) [0..<32])"

definition headerBytes :: "u8 list" where
  "headerBytes = map of_char ''Bud1'' @ be32 32 @ be32 2048 @ be32 32"

text \<open>
  The condition under which round \<open>i\<close> of the table loop neither calls
  \<^verbatim>\<open>__builtin_clz(0)\<close> nor fails its assertion.
\<close>

definition tableOK :: "BuddyAllocator \<Rightarrow> nat \<Rightarrow> bool" where
  "tableOK a i \<longleftrightarrow>
     (i < length (blocks a) - 1 \<longrightarrow>
        bsize (blocks a ! (i + 1)) \<noteq> 0 \<and> addr (blocks a ! (i + 1)) AND 0x1f = 0)"

text \<open>A block whose size is zero or a power of two below \<open>2^32\<close>.\<close>

definition pow2len :: "Block \<Rightarrow> bool" where
  "pow2len b \<longleftrightarrow> length (bytes b) = 0 \<or> (\<exists>k<32. length (bytes b) = 2 ^ k)"

text \<open>A block with address \<open>A\<close> and \<open>L\<close> bytes.\<close>

definition shaped :: "u32 \<Rightarrow> nat \<Rightarrow> Block \<Rightarrow> bool" where
  "shaped A L b \<longleftrightarrow> addr b = A \<and> length (bytes b) = L"

text \<open>The entry a reader of the page gets back for one add call.\<close>

fun entryOf :: "addCall \<Rightarrow> entry" where
  "entryOf (AddBlob fileName recordType data) =
     (map char16 fileName, map of_char recordType, Blob data)"
| "entryOf (AddBool fileName recordType v) =
     (map char16 fileName, map of_char recordType, Bool v)"
| "entryOf (AddShort fileName recordType v) =
     (map char16 fileName, map of_char recordType, Short (ucast v))"

text \<open>
  The record \<^verbatim>\<open>main\<close> builds for a file entry, and the add calls \<^verbatim>\<open>main\<close> makes when it
  is run with background 600 by 400, volume \<^verbatim>\<open>Vol\<close>, icon size 128, text size 16 and the
  one file entry \<^verbatim>\<open>icon.png\<close> at (100, 100), given the alias record of the background.
\<close>

definition ilocBytes :: "u32 \<Rightarrow> u32 \<Rightarrow> u8 list" where
  "ilocBytes centerX centerY =
     be32 centerX @ be32 centerY @ be16 0xffff @ be16 0xffff @ be16 0xffff @ [0, 0]"

definition exampleCalls :: "u8 list \<Rightarrow> addCall list" where
  "exampleCalls aliasFile =
     [AddBlob ''.'' ''BKGD''
        (map of_char ''PctB'' @ be32 (word_of_nat (length aliasFile)) @ replicate 4 0),
      AddBool ''.'' ''ICVO'' 1,
      AddBlob ''.'' ''fwi0''
        (be16 200 @ be16 300 @ be16 600 @ be16 900 @ map of_char ''icnv'' @ replicate 4 0),
      AddBlob ''.'' ''icvo''
        (map of_char ''icv4'' @ be16 128 @ map of_char ''none'' @ map of_char ''botm''
         @ replicate 12 0),
      AddShort ''.'' ''icvt'' 16,
      AddBlob ''.'' ''pict'' aliasFile,
      AddBlob ''icon.png'' ''Iloc'' (ilocBytes 100 100)]"
section \<open>Properties\<close>

subsection \<open>Rounding a size up to a power of two\<close>

lemma smear_step:
  fixes w v :: u32
  assumes "\<And>j. bit w j \<longleftrightarrow> (\<exists>d<m. bit v (j + d))"
  shows "bit (w OR drop_bit m w) j \<longleftrightarrow> (\<exists>d<2*m. bit v (j + d))"
proof -
  have "bit (w OR drop_bit m w) j \<longleftrightarrow> (\<exists>d<m. bit v (j + d)) \<or> (\<exists>d<m. bit v (m + j + d))"
    by (simp add: bit_or_iff bit_drop_bit_eq assms)
  also have "\<dots> \<longleftrightarrow> (\<exists>d<2*m. bit v (j + d))"
  proof
    assume "(\<exists>d<m. bit v (j + d)) \<or> (\<exists>d<m. bit v (m + j + d))"
    then show "\<exists>d<2*m. bit v (j + d)"
    proof
      assume "\<exists>d<m. bit v (j + d)"
      then obtain d where "d < m" "bit v (j + d)" by blast
      then show ?thesis by (intro exI[of _ d]) simp
    next
      assume "\<exists>d<m. bit v (m + j + d)"
      then obtain d where "d < m" "bit v (m + j + d)" by blast
      then show ?thesis by (intro exI[of _ "m + d"]) (simp add: ac_simps)
    qed
  next
    assume "\<exists>d<2*m. bit v (j + d)"
    then obtain d where d: "d < 2*m" "bit v (j + d)" by blast
    show "(\<exists>d<m. bit v (j + d)) \<or> (\<exists>d<m. bit v (m + j + d))"
    proof (cases "d < m")
      case True with d show ?thesis by blast
    next
      case False
      with d have "d - m < m" "bit v (m + j + (d - m))" by (simp_all add: ac_simps)
      then show ?thesis by blast
    qed
  qed
  finally show ?thesis .
qed

lemma smear_bits:
  fixes v :: u32
  shows "bit (powerOf2Ceil (v + 1) - 1) j \<longleftrightarrow> (\<exists>d<32. bit v (j + d))"
proof -
  define w1 where "w1 = v OR drop_bit 1 v"
  define w2 where "w2 = w1 OR drop_bit 2 w1"
  define w3 where "w3 = w2 OR drop_bit 4 w2"
  define w4 where "w4 = w3 OR drop_bit 8 w3"
  define w5 where "w5 = w4 OR drop_bit 16 w4"
  have h0: "\<And>j. bit v j \<longleftrightarrow> (\<exists>d<1. bit v (j + d))" by simp
  have h1: "\<And>j. bit w1 j \<longleftrightarrow> (\<exists>d<2. bit v (j + d))"
    unfolding w1_def using smear_step[of v 1 v, OF h0] by simp
  have h2: "\<And>j. bit w2 j \<longleftrightarrow> (\<exists>d<4. bit v (j + d))"
    unfolding w2_def using smear_step[of w1 2 v, OF h1] by simp
  have h3: "\<And>j. bit w3 j \<longleftrightarrow> (\<exists>d<8. bit v (j + d))"
    unfolding w3_def using smear_step[of w2 4 v, OF h2] by simp
  have h4: "\<And>j. bit w4 j \<longleftrightarrow> (\<exists>d<16. bit v (j + d))"
    unfolding w4_def using smear_step[of w3 8 v, OF h3] by simp
  have h5: "\<And>j. bit w5 j \<longleftrightarrow> (\<exists>d<32. bit v (j + d))"
    unfolding w5_def using smear_step[of w4 16 v, OF h4] by simp
  have "powerOf2Ceil (v + 1) - 1 = w5"
    by (simp add: powerOf2Ceil_def Let_def w1_def w2_def w3_def w4_def w5_def)
  then show ?thesis using h5 by simp
qed

lemma nat_lt_pow_no_bit: "(n::nat) < 2 ^ k \<Longrightarrow> k \<le> j \<Longrightarrow> \<not> bit n j"
proof -
  assume a: "n < 2 ^ k" "k \<le> j"
  have "(2::nat) ^ k \<le> 2 ^ j" using a(2) by simp
  with a(1) have "n < 2 ^ j" by (rule less_le_trans)
  then have "n div 2 ^ j = 0" by (rule div_less)
  then show ?thesis by (simp add: bit_iff_odd)
qed

lemma nat_top_bit: "2 ^ k \<le> (n::nat) \<Longrightarrow> n < 2 ^ Suc k \<Longrightarrow> bit n k"
proof -
  assume a: "2 ^ k \<le> n" "n < 2 ^ Suc k"
  have "n div 2 ^ k = 1"
  proof -
    have "n div 2 ^ k < 2" using a(2) by (simp add: less_mult_imp_div_less)
    moreover have "n div 2 ^ k \<ge> 1" using a(1) by (simp add: div_greater_zero_iff Suc_le_eq)
    ultimately show ?thesis by simp
  qed
  then show ?thesis by (simp add: bit_iff_odd)
qed

lemma powerOf2Ceil_mask:
  fixes v :: u32
  assumes lt: "unat v < 2 ^ k" and k32: "k \<le> 32" and top: "k = 0 \<or> 2 ^ (k - 1) \<le> unat v"
  shows "powerOf2Ceil (v + 1) - 1 = mask k"
proof (rule bit_eqI)
  fix j
  show "bit (powerOf2Ceil (v + 1) - 1) j \<longleftrightarrow> bit (mask k :: u32) j"
  proof (cases "j < k")
    case True
    then have k: "k = Suc (k - 1)" "2 ^ (k - 1) \<le> unat v" using top by auto
    then have "bit (unat v) (k - 1)" using nat_top_bit[of "k - 1" "unat v"] lt by simp
    then have "bit v (j + (k - 1 - j))" using True by (simp add: bit_unsigned_iff)
    moreover have "k - 1 - j < 32" using k32 True by simp
    ultimately have "\<exists>d<32. bit v (j + d)" by blast
    then show ?thesis using True k32 by (simp add: smear_bits bit_mask_iff)
  next
    case False
    have "\<not> bit v (j + d)" for d
      using nat_lt_pow_no_bit[OF lt, of "j + d"] False by (simp add: bit_unsigned_iff)
    then show ?thesis using False by (simp add: smear_bits bit_mask_iff)
  qed
qed

lemma powerOf2Ceil_eq:
  fixes v :: u32
  assumes lt: "unat v < 2 ^ k" and k31: "k \<le> 31" and top: "k = 0 \<or> 2 ^ (k - 1) \<le> unat v"
  shows "powerOf2Ceil (v + 1) = 2 ^ k"
proof -
  have "powerOf2Ceil (v + 1) - 1 = mask k"
    using lt _ top by (rule powerOf2Ceil_mask) (use k31 in simp)
  then have "powerOf2Ceil (v + 1) = mask k + 1" by (simp add: algebra_simps)
  then show ?thesis by (simp add: inc_mask_eq_exp)
qed

lemma powerOf2Ceil_range: "powerOf2Ceil n = 0 \<or> (\<exists>k<32. powerOf2Ceil n = 2 ^ k)"
proof -
  define v where "v = n - 1"
  have nv: "n = v + 1" by (simp add: v_def)
  define k where "k = (LEAST k. unat v < 2 ^ k)"
  have v32: "unat v < 2 ^ 32" by (rule order_less_le_trans[OF unsigned_less]) simp
  have lt: "unat v < 2 ^ k" unfolding k_def using v32 by (rule LeastI)
  have k32: "k \<le> 32" unfolding k_def using v32 by (rule Least_le)
  have top: "k = 0 \<or> 2 ^ (k - 1) \<le> unat v"
  proof (cases k)
    case 0 then show ?thesis by simp
  next
    case (Suc m)
    then have "m < (LEAST k. unat v < 2 ^ k)" by (simp add: k_def)
    then have "\<not> unat v < 2 ^ m" by (rule not_less_Least)
    then show ?thesis using Suc by simp
  qed
  have "powerOf2Ceil n - 1 = mask k" unfolding nv using lt k32 top by (rule powerOf2Ceil_mask)
  then have "powerOf2Ceil n = mask k + 1" by (simp add: algebra_simps)
  then have e: "powerOf2Ceil n = 2 ^ k" by (simp add: inc_mask_eq_exp)
  show ?thesis
  proof (cases "k = 32")
    case True
    then show ?thesis using e by simp
  next
    case False
    then have "k < 32" using k32 by simp
    then show ?thesis using e by blast
  qed
qed

lemma powerOf2Ceil_least:
  assumes "1 \<le> unat n" and "unat n \<le> 2 ^ 31"
  shows "\<exists>k\<le>31. powerOf2Ceil n = 2 ^ k \<and> unat n \<le> 2 ^ k \<and> (\<forall>j. unat n \<le> 2 ^ j \<longrightarrow> k \<le> j)"
proof -
  define v where "v = n - 1"
  have n0: "n \<noteq> 0" using assms(1) by auto
  have uv: "unat v = unat n - 1" unfolding v_def using n0 by (rule unat_minus_one)
  have nv: "n = v + 1" by (simp add: v_def)
  define k where "k = (LEAST k. unat v < 2 ^ k)"
  have v31: "unat v < 2 ^ 31" using uv assms by simp
  have lt: "unat v < 2 ^ k" unfolding k_def using v31 by (rule LeastI)
  have k31: "k \<le> 31" unfolding k_def using v31 by (rule Least_le)
  have top: "k = 0 \<or> 2 ^ (k - 1) \<le> unat v"
  proof (cases k)
    case 0 then show ?thesis by simp
  next
    case (Suc m)
    then have "m < (LEAST k. unat v < 2 ^ k)" by (simp add: k_def)
    then have "\<not> unat v < 2 ^ m" by (rule not_less_Least)
    then show ?thesis using Suc by simp
  qed
  have eq: "powerOf2Ceil n = 2 ^ k" unfolding nv using lt k31 top by (rule powerOf2Ceil_eq)
  have le: "unat n \<le> 2 ^ k" using lt uv assms(1) by simp
  have least: "k \<le> j" if "unat n \<le> 2 ^ j" for j
  proof -
    from that uv assms(1) have "unat v < 2 ^ j" by simp
    then show ?thesis unfolding k_def by (rule Least_le)
  qed
  show ?thesis using k31 eq le least by blast
qed


subsection \<open>The allocator\<close>

lemma powerOf2Ceil_32: "powerOf2Ceil 32 = 32"
  by (simp add: powerOf2Ceil_def)

lemma powerOf2Ceil_2048: "powerOf2Ceil 2048 = 2048"
  by (simp add: powerOf2Ceil_def)

lemma powerOf2Ceil_20: "powerOf2Ceil 20 = 32"
  by (simp add: powerOf2Ceil_def)

lemma newBuddyAllocator_eq:
  "newBuddyAllocator = \<lparr>blocks = [newBlock 0 32, newBlock 32 2048], curAddr = 2080\<rparr>"
  by (simp add: newBuddyAllocator_def allocateBlock_def Let_def powerOf2Ceil_32 powerOf2Ceil_2048)

lemma blocks_allocateBlock:
  "blocks (snd (allocateBlock a n)) = blocks a @ [newBlock (curAddr a) (powerOf2Ceil n)]"
  by (simp add: allocateBlock_def Let_def)

lemma curAddr_allocateBlock:
  "curAddr (snd (allocateBlock a n)) = curAddr a + powerOf2Ceil n"
  by (simp add: allocateBlock_def Let_def)

lemma fst_allocateBlock:
  "fst (allocateBlock a n) = word_of_int (int (length (blocks a)) - 1)"
  by (simp add: allocateBlock_def Let_def)

lemma blocks_allocateBlocks:
  "\<exists>bs. blocks (allocateBlocks a ns) = blocks a @ bs \<and> length bs = length ns"
proof (induction ns arbitrary: a)
  case Nil
  then show ?case by simp
next
  case (Cons n ns)
  from Cons.IH[of "snd (allocateBlock a n)"] obtain bs where
    "blocks (allocateBlocks (snd (allocateBlock a n)) ns) = blocks (snd (allocateBlock a n)) @ bs"
    "length bs = length ns" by blast
  then show ?case by (simp add: blocks_allocateBlock)
qed

lemma length_blocks_allocateBlocks:
  "length (blocks (allocateBlocks a ns)) = length (blocks a) + length ns"
  using blocks_allocateBlocks[of a ns] by auto

lemma bsize_newBlock: "bsize (newBlock c s) = s"
  by (simp add: bsize_def newBlock_def)

lemma curAddr_sum_allocateBlock:
  "curAddr a = sum_list (map bsize (blocks a)) \<Longrightarrow>
   curAddr (snd (allocateBlock a n)) = sum_list (map bsize (blocks (snd (allocateBlock a n))))"
  by (simp add: blocks_allocateBlock curAddr_allocateBlock bsize_newBlock)

lemma curAddr_sum_allocateBlocks:
  "curAddr a = sum_list (map bsize (blocks a)) \<Longrightarrow>
   curAddr (allocateBlocks a ns) = sum_list (map bsize (blocks (allocateBlocks a ns)))"
proof (induction ns arbitrary: a)
  case Nil
  then show ?case by simp
next
  case (Cons n ns)
  show ?case using Cons.IH[OF curAddr_sum_allocateBlock[OF Cons.prems]] by simp
qed

lemma curAddr_sum_new: "curAddr newBuddyAllocator = sum_list (map bsize (blocks newBuddyAllocator))"
  by (simp add: newBuddyAllocator_eq bsize_newBlock)

lemma unat_pow2: "k < 32 \<Longrightarrow> unat (2 ^ k :: u32) = 2 ^ k"
proof -
  assume k: "k < 32"
  have "(2 ^ k :: u32) = word_of_nat (2 ^ k)" by simp
  then have "unat (2 ^ k :: u32) = 2 ^ k mod 2 ^ 32" by (simp only: unat_of_nat) simp
  moreover have "(2::nat) ^ k < 2 ^ 32" using k by (rule power_strict_increasing) simp
  ultimately show ?thesis by simp
qed

lemma dvd_sum_list_word:
  fixes ws :: "u32 list"
  shows "(\<forall>w\<in>set ws. d dvd w) \<Longrightarrow> d dvd sum_list ws"
  by (induction ws) simp_all

lemma dvd_bsize:
  assumes "2 ^ k dvd length (bytes c)"
  shows "(2 ^ k :: u32) dvd bsize c"
proof -
  from assms obtain q where "length (bytes c) = 2 ^ k * q" by (rule dvdE)
  then have "bsize c = 2 ^ k * word_of_nat q" by (simp add: bsize_def)
  then show ?thesis by simp
qed

lemma dvd_unat_pow2:
  fixes w :: u32
  assumes "2 ^ k dvd w"
  shows "2 ^ k dvd unat w"
proof -
  from assms have "take_bit k w = 0" by (simp add: take_bit_eq_0_iff)
  then have "unat (take_bit k w) = 0" by simp
  then have "take_bit k (unat w) = 0" by (simp only: unsigned_take_bit_eq)
  then show ?thesis by (simp add: take_bit_eq_0_iff)
qed

lemma aligned_sum:
  assumes "\<forall>c\<in>set bs. 2 ^ k dvd length (bytes c)"
  shows "2 ^ k dvd unat (sum_list (map bsize bs))"
proof -
  have "(2 ^ k :: u32) dvd sum_list (map bsize bs)"
    by (rule dvd_sum_list_word) (use assms in \<open>auto simp: dvd_bsize\<close>)
  then show ?thesis by (rule dvd_unat_pow2)
qed


lemma allocateBlock_id:
  assumes "1 \<le> length (blocks a)" and "length (blocks a) < 2 ^ 32"
  shows "unat (fst (allocateBlock a n)) = length (blocks a) - 1"
    and "blockIndex (fst (allocateBlock a n)) = length (blocks a)"
    and "fst (allocateBlock a n) \<noteq> 0xffffffff"
proof -
  define m where "m = length (blocks a) - 1"
  have m: "length (blocks a) = m + 1" using assms(1) by (simp add: m_def)
  have m32: "m + 1 < 2 ^ 32" using assms(2) m by simp
  have id: "fst (allocateBlock a n) = word_of_nat m"
    by (simp add: fst_allocateBlock m)
  have "unat (word_of_nat m :: u32) = m mod 2 ^ 32" by (simp only: unat_of_nat) simp
  also have "\<dots> = m" using m32 by (intro mod_less) linarith
  finally show u: "unat (fst (allocateBlock a n)) = length (blocks a) - 1"
    by (simp add: id m)
  have "word_of_nat m + (1::u32) = word_of_nat (m + 1)" by simp
  then have "blockIndex (fst (allocateBlock a n)) = unat (word_of_nat (m + 1) :: u32)"
    by (simp only: blockIndex_def id)
  also have "\<dots> = (m + 1) mod 2 ^ 32" by (simp only: unat_of_nat) simp
  also have "\<dots> = m + 1" using m32 by (intro mod_less)
  finally show "blockIndex (fst (allocateBlock a n)) = length (blocks a)" by (simp add: m)
  show "fst (allocateBlock a n) \<noteq> 0xffffffff"
  proof
    assume "fst (allocateBlock a n) = 0xffffffff"
    then have "unat (fst (allocateBlock a n)) = unat (0xffffffff :: u32)" by simp
    then have "m = 4294967295" using u m by simp
    with m32 show False by simp
  qed
qed

lemma getBlock_append_new:
  assumes "blockId \<noteq> 0xffffffff" and "blockIndex blockId = length bs"
    and "blocks a = bs @ b # cs"
  shows "getBlock a blockId = Inr b"
  using assms by (simp add: getBlock_def)




subsection \<open>The record writers store what \<open>putAt\<close> says\<close>

lemma bind_Inr [simp]: "bind (Inr x) f = f x"
  by (simp add: bind_def)

lemma bind_Inl [simp]: "bind (Inl e) f = Inl e"
  by (simp add: bind_def)

lemma length_patch [simp]: "length (patch d off bs) = length d"
  by (simp add: patch_def min_def)

lemma patch_eq:
  "off + length bs \<le> length d \<Longrightarrow> patch d off bs = take off d @ bs @ drop (off + length bs) d"
  by (simp add: patch_def)

lemma patch_Nil [simp]: "patch d off [] = d"
  by (simp add: patch_def)

lemma unat_add_small:
  fixes off :: u32
  assumes "unat off + k < 2 ^ 32"
  shows "unat (off + word_of_nat k) = unat off + k"
proof -
  have k: "k < 2 ^ 32" using assms by simp
  have "unat (word_of_nat k :: u32) = k mod 2 ^ 32" by (simp only: unat_of_nat) simp
  then have uk: "unat (word_of_nat k :: u32) = k" using k by simp
  have "unat (off + word_of_nat k) = (unat off + unat (word_of_nat k :: u32)) mod 2 ^ 32"
    by (simp only: unat_word_ariths) simp
  then show ?thesis using assms uk by simp
qed

lemma patch_as_update:
  assumes "off < length d"
  shows "d[off := v] = patch d off [v]"
  using assms by (simp add: patch_eq upd_conv_take_nth_drop)

lemma patch_patch:
  assumes "off + length as + length bs \<le> length d"
  shows "patch (patch d off as) (off + length as) bs = patch d off (as @ bs)"
proof -
  have l: "length (take off d) = off" using assms by simp
  have t: "take (off + length as) (take off d @ as @ drop (off + length as) d) = take off d @ as"
    using l by simp
  have "drop (off + length as + length bs) (take off d @ as @ drop (off + length as) d)
        = drop (length bs) (drop (off + length as) d)"
    using l by simp
  also have "\<dots> = drop (off + length (as @ bs)) d" by (simp add: add.commute add.left_commute)
  finally have "take (off + length as) (take off d @ as @ drop (off + length as) d) @ bs
      @ drop (off + length as + length bs) (take off d @ as @ drop (off + length as) d)
      = take off d @ (as @ bs) @ drop (off + length (as @ bs)) d"
    using t by simp
  moreover have "patch d off as = take off d @ as @ drop (off + length as) d"
    using assms by (simp add: patch_eq)
  moreover have "patch d off (as @ bs) = take off d @ (as @ bs) @ drop (off + length (as @ bs)) d"
    using assms by (simp add: patch_eq)
  moreover have "patch (patch d off as) (off + length as) bs
      = take (off + length as) (patch d off as) @ bs
        @ drop (off + length as + length bs) (patch d off as)"
    using assms by (simp add: patch_eq)
  ultimately show ?thesis by simp
qed

lemma storeLoop_patch:
  assumes "unat off + unat i + length bs \<le> length d" and "length d < 2 ^ 32"
  shows "storeLoop d off i bs = Inr (patch d (unat off + unat i) bs)"
  using assms
proof (induction bs arbitrary: d i)
  case Nil
  then show ?case by simp
next
  case (Cons b bs)
  have lt: "unat off + unat i < length d" using Cons.prems by simp
  have u: "unat (off + i) = unat off + unat i"
    using lt Cons.prems(2) by (simp add: unat_word_ariths)
  have i1: "unat (i + 1) = unat i + 1"
    using lt Cons.prems by (simp add: unat_word_ariths)
  have st: "store d (off + i) b = Inr (patch d (unat off + unat i) [b])"
    using lt by (simp add: store_def u patch_as_update)
  have len: "length (patch d (unat off + unat i) [b]) = length d"
    by simp
  have "storeLoop (patch d (unat off + unat i) [b]) off (i + 1) bs
        = Inr (patch (patch d (unat off + unat i) [b]) (unat off + unat (i + 1)) bs)"
    by (rule Cons.IH) (use Cons.prems i1 len in simp_all)
  also have "\<dots> = Inr (patch d (unat off + unat i) ([b] @ bs))"
    using Cons.prems patch_patch[of "unat off + unat i" "[b]" bs d] by (simp add: i1)
  finally show ?case by (simp add: st)
qed

lemma split_at4:
  assumes "off + 4 \<le> length d"
  shows "\<exists>xs x0 x1 x2 x3 ys. d = xs @ x0 # x1 # x2 # x3 # ys \<and> length xs = off"
proof -
  have "drop off d = d ! off # d ! (off + 1) # d ! (off + 2) # d ! (off + 3) # drop (off + 4) d"
    using assms by (simp add: Cons_nth_drop_Suc numeral_eq_Suc)
  then have "d = take off d @ d ! off # d ! (off + 1) # d ! (off + 2) # d ! (off + 3) # drop (off + 4) d"
    by (metis append_take_drop_id)
  moreover have "length (take off d) = off" using assms by simp
  ultimately show ?thesis by blast
qed

lemma update4_patch:
  assumes "off + 4 \<le> length d"
  shows "d[off + 3 := b3, off + 2 := b2, off + 1 := b1, off := b0] = patch d off [b0, b1, b2, b3]"
proof -
  from split_at4[OF assms] obtain xs x0 x1 x2 x3 ys
    where d: "d = xs @ x0 # x1 # x2 # x3 # ys" and l: "length xs = off" by blast
  have "patch d off [b0, b1, b2, b3] = take off d @ [b0, b1, b2, b3] @ drop (off + 4) d"
    using patch_eq[of off "[b0, b1, b2, b3]" d] assms by (simp add: numeral_eq_Suc)
  then show ?thesis unfolding d using l by (simp add: list_update_append)
qed

lemma update2_patch:
  assumes "off + 2 \<le> length d"
  shows "d[off + 1 := b1, off := b0] = patch d off [b0, b1]"
proof -
  have "drop off d = d ! off # d ! (off + 1) # drop (off + 2) d"
    using assms by (simp add: Cons_nth_drop_Suc numeral_eq_Suc)
  then have d: "d = take off d @ d ! off # d ! (off + 1) # drop (off + 2) d"
    by (metis append_take_drop_id)
  have l: "length (take off d) = off" using assms by simp
  have p: "patch d off [b0, b1] = take off d @ [b0, b1] @ drop (off + 2) d"
    using patch_eq[of off "[b0, b1]" d] assms by (simp add: numeral_eq_Suc)
  have "(take off d @ d ! off # d ! (off + 1) # drop (off + 2) d)[off + 1 := b1, off := b0]
        = take off d @ [b0, b1] @ drop (off + 2) d"
    using l by (simp add: list_update_append)
  then show ?thesis using d p by simp
qed

lemma fitsD:
  assumes "fits r n" and "k < n"
  shows "unat (curOffset r + word_of_nat k) = unat (curOffset r) + k"
    and "unat (curOffset r) + k < length (bytes r)"
proof -
  show "unat (curOffset r) + k < length (bytes r)" using assms by (simp add: fits_def)
  then have "unat (curOffset r) + k < 2 ^ 32" using assms(1) by (simp add: fits_def)
  then show "unat (curOffset r + word_of_nat k) = unat (curOffset r) + k"
    by (rule unat_add_small)
qed

lemma writeInt8_putAt:
  assumes "fits r 1"
  shows "writeInt8 r v = Inr (putAt r [v])"
proof -
  have "unat (curOffset r) < length (bytes r)" using fitsD(2)[OF assms, of 0] by simp
  then show ?thesis by (simp add: writeInt8_def store_def putAt_def patch_as_update)
qed

lemma writeInt16_putAt:
  assumes "fits r 2"
  shows "writeInt16 r v = Inr (putAt r (be16 v))"
proof -
  have u1: "unat (curOffset r + 1) = unat (curOffset r) + 1"
    using fitsD(1)[OF assms, of 1] by simp
  have l: "unat (curOffset r) + 2 \<le> length (bytes r)" using assms by (simp add: fits_def)
  show ?thesis
    using l by (simp add: writeInt16_def store_def u1 putAt_def be16_def
        update2_patch[OF l, symmetric])
qed

lemma writeInt32_putAt:
  assumes "fits r 4"
  shows "writeInt32 r v = Inr (putAt r (be32 v))"
proof -
  have u1: "unat (curOffset r + 1) = unat (curOffset r) + 1"
    using fitsD(1)[OF assms, of 1] by simp
  have u2: "unat (curOffset r + 2) = unat (curOffset r) + 2"
    using fitsD(1)[OF assms, of 2] by simp
  have u3: "unat (curOffset r + 3) = unat (curOffset r) + 3"
    using fitsD(1)[OF assms, of 3] by simp
  have l: "unat (curOffset r) + 4 \<le> length (bytes r)" using assms by (simp add: fits_def)
  show ?thesis
    using l by (simp add: writeInt32_def store_def u1 u2 u3 putAt_def be32_def
        update4_patch[OF l, symmetric])
qed

lemma writeData_putAt:
  assumes "fits r (length data)"
  shows "writeData r data = Inr (putAt r data)"
proof -
  have l: "unat (curOffset r) + length data \<le> length (bytes r)" "length (bytes r) < 2 ^ 32"
    using assms by (simp_all add: fits_def)
  then have n: "\<not> length data \<ge> 2 ^ 32" by simp
  have "storeLoop (bytes r) (curOffset r) 0 data = Inr (patch (bytes r) (unat (curOffset r) + unat (0::u32)) data)"
    by (rule storeLoop_patch) (use l in simp_all)
  then show ?thesis using n by (simp add: writeData_def putAt_def)
qed

lemma writeStr_putAt:
  assumes "fits r (length s)"
  shows "writeStr r s = Inr (putAt r (map of_char s))"
proof -
  have l: "unat (curOffset r) + length s \<le> length (bytes r)" "length (bytes r) < 2 ^ 32"
    using assms by (simp_all add: fits_def)
  then have n: "length s < 2 ^ 32" by simp
  have "unat (word_of_nat (length s) :: u32) = length s mod 2 ^ 32" by (simp only: unat_of_nat) simp
  then have u: "unat (word_of_nat (length s) :: u32) = length s" using n by simp
  have "storeLoop (bytes r) (curOffset r) 0 (map of_char s)
        = Inr (patch (bytes r) (unat (curOffset r) + unat (0::u32)) (map of_char s))"
    by (rule storeLoop_patch) (use l in simp_all)
  then show ?thesis by (simp add: writeStr_def putAt_def u Let_def)
qed

lemma fits_putAt:
  assumes "fits r (length as + n)"
  shows "fits (putAt r as) n"
proof -
  have l: "unat (curOffset r) + length as + n \<le> length (bytes r)" "length (bytes r) < 2 ^ 32"
    using assms by (simp_all add: fits_def)
  then have "unat (curOffset r + word_of_nat (length as)) = unat (curOffset r) + length as"
    by (intro unat_add_small) simp
  then show ?thesis using l by (simp add: fits_def putAt_def)
qed

lemma putAt_putAt:
  assumes "fits r (length as + length bs)"
  shows "putAt (putAt r as) bs = putAt r (as @ bs)"
proof -
  have l: "unat (curOffset r) + length as + length bs \<le> length (bytes r)" "length (bytes r) < 2 ^ 32"
    using assms by (simp_all add: fits_def)
  then have u: "unat (curOffset r + word_of_nat (length as)) = unat (curOffset r) + length as"
    by (intro unat_add_small) simp
  show ?thesis using l by (simp add: putAt_def u patch_patch)
qed

lemma fits_mono: "fits r n \<Longrightarrow> m \<le> n \<Longrightarrow> fits r m"
  by (simp add: fits_def)


subsection \<open>The free-list loop\<close>

lemma take_bit_Suc_word:
  fixes w :: u32
  shows "take_bit (Suc n) w = take_bit n w + push_bit n (of_bool (bit w n))"
proof -
  have bu: "bit (uint w) n \<longleftrightarrow> bit w n"
    by (auto simp: bit_uint_iff dest: bit_imp_le_length)
  have "take_bit (Suc n) w = word_of_int (uint (take_bit (Suc n) w))" by simp
  also have "\<dots> = word_of_int (take_bit (Suc n) (uint w))" by (simp only: unsigned_take_bit_eq)
  also have "\<dots> = word_of_int (2 ^ n * of_bool (bit (uint w) n) + take_bit n (uint w))"
    by (simp only: take_bit_Suc_from_most)
  also have "\<dots> = word_of_int (2 ^ n * of_bool (bit w n)) + word_of_int (uint (take_bit n w))"
    using bu by (simp only: wi_hom_add unsigned_take_bit_eq)
  also have "\<dots> = take_bit n w + push_bit n (of_bool (bit w n))"
    by (simp add: push_bit_eq_mult)
  finally show ?thesis .
qed

lemma freeAddr_closed:
  "freeAddr c i = c + take_bit i (- c) \<and> (i < 32 \<longrightarrow> (bit (freeAddr c i) i \<longleftrightarrow> bit (- c) i))"
proof (induction i)
  case 0
  show ?case by (simp add: bit_0)
next
  case (Suc i)
  have b: "i < 32 \<Longrightarrow> bit (c + take_bit i (- c)) i \<longleftrightarrow> bit (- c) i" for i
  proof -
    assume i: "i < 32"
    define p where "p = push_bit i (drop_bit i (- c))"
    define t where "t = take_bit i (- c)"
    have "p + t = - c" unfolding p_def t_def by (rule bits_ident)
    then have "c = - (p + t)" by (metis add.inverse_inverse)
    then have "c + t = - (p + t) + t" by simp
    also have "\<dots> = - p" by simp
    finally have "c + take_bit i (- c) = push_bit i (- drop_bit i (- c))"
      by (simp add: push_bit_minus p_def t_def)
    then have "bit (c + take_bit i (- c)) i \<longleftrightarrow> odd (- drop_bit i (- c))"
      using i by (simp add: bit_push_bit_iff bit_0)
    also have "\<dots> \<longleftrightarrow> bit (- c) i" by (simp add: bit_iff_odd_drop_bit)
    finally show ?thesis .
  qed
  have eq: "freeAddr c (Suc i) = c + take_bit (Suc i) (- c)"
  proof (cases "i < 32")
    case True
    then show ?thesis using Suc b[OF True] by (simp add: take_bit_Suc_word)
  next
    case False
    then have "bit (freeAddr c i) i = False" "bit (- c) i = False"
      by (auto dest: bit_imp_le_length)
    then show ?thesis using Suc by (simp add: take_bit_Suc_word)
  qed
  show ?case using eq b[of "Suc i"] by simp
qed

lemma freeAddr_32: "freeAddr c 32 = 0"
proof -
  have "freeAddr c 32 = c + take_bit 32 (- c)" using freeAddr_closed[of c 32] by simp
  also have "take_bit 32 (- c) = - c" by (simp add: take_bit_word_eq_self)
  finally show ?thesis by simp
qed

lemma length_be32 [simp]: "length (be32 v) = 4"
  by (simp add: be32_def)

lemma length_be16 [simp]: "length (be16 v) = 2"
  by (simp add: be16_def)

lemma length_bucket: "length (bucket c i) \<le> 8"
  by (simp add: bucket_def)

lemma freeListStep_bit:
  "freeListStep i (m, c) =
     (if bit c i then
        bind (writeInt32 m 1) (\<lambda>m. bind (writeInt32 m c) (\<lambda>m. Inr (m, c + push_bit i 1)))
      else bind (writeInt32 m 0) (\<lambda>m. Inr (m, c)))"
  unfolding freeListStep_def Let_def bit_iff_and_push_bit_not_eq_0[of c i] by simp

lemma freeListStep_addr:
  assumes "freeListStep i (m, freeAddr c i) = Inr (m', c')"
  shows "c' = freeAddr c (Suc i)"
  using assms
  by (auto simp: freeListStep_bit bind_def split: if_splits sum.splits)

lemma freeListStep_putAt:
  assumes "fits m 8"
  shows "freeListStep i (m, freeAddr c i) = Inr (putAt m (bucket c i), freeAddr c (Suc i))"
proof (cases "bit (freeAddr c i) i")
  case True
  have f4: "fits m 4" using assms by (rule fits_mono) simp
  have f4': "fits (putAt m (be32 1)) 4" by (rule fits_putAt) (use assms in simp)
  have "putAt (putAt m (be32 1)) (be32 (freeAddr c i)) = putAt m (be32 1 @ be32 (freeAddr c i))"
    by (rule putAt_putAt) (use assms in simp)
  then show ?thesis
    using True by (simp add: freeListStep_bit bucket_def writeInt32_putAt[OF f4]
        writeInt32_putAt[OF f4'])
next
  case False
  have f4: "fits m 4" using assms by (rule fits_mono) simp
  show ?thesis
    using False by (simp add: freeListStep_bit bucket_def writeInt32_putAt[OF f4])
qed

lemma freeList_addr:
  assumes "forLoop [i..<n] freeListStep (m, freeAddr c i) = Inr (m', c')" and "i \<le> n"
  shows "c' = freeAddr c n"
  using assms
proof (induction "n - i" arbitrary: i m)
  case 0
  then show ?case by simp
next
  case (Suc k)
  then have lt: "i < n" by simp
  from Suc.prems(1) obtain m1 c1 where
    s: "freeListStep i (m, freeAddr c i) = Inr (m1, c1)" and
    r: "forLoop [Suc i..<n] freeListStep (m1, c1) = Inr (m', c')"
    by (auto simp: upt_conv_Cons[OF lt] bind_def split: sum.splits)
  have c1: "c1 = freeAddr c (Suc i)" using s by (rule freeListStep_addr)
  show ?case by (rule Suc.hyps(1)[of "Suc i" m1]) (use Suc.hyps(2) lt r c1 in simp_all)
qed

lemma putAt_Nil: "putAt r [] = r"
  by (simp add: putAt_def)

lemma freeList_putAt:
  assumes "i \<le> n" and "fits m (8 * (n - i))"
  shows "forLoop [i..<n] freeListStep (m, freeAddr c i)
         = Inr (putAt m (concat (map (bucket c) [i..<n])), freeAddr c n)"
  using assms
proof (induction "n - i" arbitrary: i m)
  case 0
  then show ?case by (simp add: putAt_Nil)
next
  case (Suc k)
  then have lt: "i < n" by simp
  have f8: "fits m 8" using Suc.prems(2) by (rule fits_mono) (use lt in simp)
  have fr: "fits m (length (bucket c i) + 8 * (n - Suc i))"
    using Suc.prems(2) by (rule fits_mono) (use lt length_bucket[of c i] in simp)
  have f': "fits (putAt m (bucket c i)) (8 * (n - Suc i))"
    using fr by (rule fits_putAt)
  have lc: "length (concat (map (bucket c) [Suc i..<n])) \<le> 8 * (n - Suc i)"
  proof -
    have "length (concat (map (bucket c) js)) \<le> 8 * length js" for js
      by (induction js) (use length_bucket in \<open>auto simp: add_le_mono\<close>)
    from this[of "[Suc i..<n]"] show ?thesis by simp
  qed
  have ih: "forLoop [Suc i..<n] freeListStep (putAt m (bucket c i), freeAddr c (Suc i))
        = Inr (putAt (putAt m (bucket c i)) (concat (map (bucket c) [Suc i..<n])), freeAddr c n)"
    by (rule Suc.hyps(1)) (use Suc.hyps(2) lt f' in simp_all)
  have "putAt (putAt m (bucket c i)) (concat (map (bucket c) [Suc i..<n]))
        = putAt m (bucket c i @ concat (map (bucket c) [Suc i..<n]))"
    by (rule putAt_putAt) (rule fits_mono[OF fr], use lc in simp)
  then show ?case
    by (simp only: upt_conv_Cons[OF lt] forLoop.simps freeListStep_putAt[OF f8] bind_Inr ih
        list.map concat.simps)
qed


subsection \<open>Errors of createMetaDataBlock\<close>

lemma store_Inl: "store d i v = Inl e \<Longrightarrow> e = BufferOverflow"
  by (auto simp: store_def split: if_splits)

lemma bind_InlE:
  assumes "bind m f = Inl e"
  obtains "m = Inl e" | x where "m = Inr x" and "f x = Inl e"
  using assms by (cases m) (auto simp: bind_def)

lemma writeInt8_Inl: "writeInt8 r v = Inl e \<Longrightarrow> e = BufferOverflow"
  unfolding writeInt8_def by (auto elim!: bind_InlE dest: store_Inl)

lemma writeInt16_Inl: "writeInt16 r v = Inl e \<Longrightarrow> e = BufferOverflow"
  unfolding writeInt16_def by (auto elim!: bind_InlE dest: store_Inl)

lemma writeInt32_Inl: "writeInt32 r v = Inl e \<Longrightarrow> e = BufferOverflow"
  unfolding writeInt32_def by (auto elim!: bind_InlE dest: store_Inl)

lemma storeLoop_Inl: "storeLoop d off i bs = Inl e \<Longrightarrow> e = BufferOverflow"
  by (induction bs arbitrary: d i) (auto elim!: bind_InlE dest: store_Inl)

lemma writeStr_Inl: "writeStr r s = Inl e \<Longrightarrow> e = BufferOverflow"
  unfolding writeStr_def Let_def by (auto elim!: bind_InlE dest: storeLoop_Inl)

lemma writeData_Inl: "writeData r s = Inl e \<Longrightarrow> e = BufferOverflow"
  unfolding writeData_def by (auto elim!: bind_InlE dest: storeLoop_Inl split: if_splits)

lemma forLoop_Inl:
  assumes "\<And>i s e. body i s = Inl e \<Longrightarrow> Q e" and "forLoop js body s = Inl e"
  shows "Q e"
  using assms(2)
proof (induction js arbitrary: s)
  case Nil
  then show ?case by simp
next
  case (Cons j js)
  from Cons.prems show ?case
    by (auto elim!: bind_InlE intro: assms(1) Cons.IH)
qed

lemma tableStep_Inl:
  "tableStep a i m = Inl e \<Longrightarrow> e \<noteq> AssertFailed ''curAddr == 0''"
  unfolding tableStep_def Let_def getLog2_def
  by (auto elim!: bind_InlE dest: writeInt32_Inl split: if_splits)

lemma freeListStep_Inl: "freeListStep i s = Inl e \<Longrightarrow> e = BufferOverflow"
  unfolding freeListStep_def Let_def
  by (cases s) (auto elim!: bind_InlE dest: writeInt32_Inl split: if_splits)

lemma tableLoop_Inl:
  "forLoop js (tableStep a) m = Inl e \<Longrightarrow> e \<noteq> AssertFailed ''curAddr == 0''"
  by (rule forLoop_Inl[where Q="\<lambda>e. e \<noteq> AssertFailed ''curAddr == 0''"]) (rule tableStep_Inl)

lemma freeListLoop_Inl: "forLoop js freeListStep s = Inl e \<Longrightarrow> e = BufferOverflow"
  by (rule forLoop_Inl[where Q="\<lambda>e. e = BufferOverflow"]) (rule freeListStep_Inl)

lemma freeList_zero:
  assumes "forLoop [0..<32] freeListStep (m, c) = Inr (m', c')"
  shows "c' = 0"
proof -
  have "forLoop [0..<32] freeListStep (m, freeAddr c 0) = Inr (m', c')" using assms by simp
  then have "c' = freeAddr c 32" by (rule freeList_addr) simp
  then show ?thesis by (simp only: freeAddr_32)
qed

lemma createMetaDataBlock_assert:
  "createMetaDataBlock a bTreeBlockId \<noteq> Inl (AssertFailed ''curAddr == 0'')"
proof
  assume "createMetaDataBlock a bTreeBlockId = Inl (AssertFailed ''curAddr == 0'')"
  then show False
    unfolding createMetaDataBlock_def Let_def
    by (auto elim!: bind_InlE split: if_splits
        dest: writeInt32_Inl writeInt8_Inl writeStr_Inl freeList_zero
          tableLoop_Inl freeListLoop_Inl)
qed

lemma fits_newBlock: "n \<le> unat sz \<Longrightarrow> fits (newBlock a sz) n"
  by (simp add: fits_def newBlock_def) (use unsigned_less[of sz] in simp)

lemma bytes_putAt_newBlock:
  "bytes (putAt (newBlock a sz) bs) = patch (replicate (unat sz) 0) 0 bs"
  by (simp add: putAt_def newBlock_def)

lemma bucket_closed:
  "i < 32 \<Longrightarrow> bucket c i = (if bit (- c) i then be32 1 @ be32 (c + take_bit i (- c)) else be32 0)"
proof -
  assume i: "i < 32"
  have cl: "freeAddr c i = c + take_bit i (- c)" using freeAddr_closed[of c i] by simp
  have bt: "bit (freeAddr c i) i \<longleftrightarrow> bit (- c) i" using freeAddr_closed[of c i] i by blast
  show ?thesis unfolding bucket_def bt by (simp only: cl)
qed

lemma upt8: "[0..<8] = [0,1,2,3,4,5,6,7]"
  by code_simp

lemma buckets_4160:
  "concat (map (bucket 4160) [0..<8])
   = be32 0 @ be32 0 @ be32 0 @ be32 0 @ be32 0 @ be32 0 @ (be32 1 @ be32 4160) @ (be32 1 @ be32 4224)"
  by (simp add: upt8 bucket_closed)


lemma length_buckets_le: "length (concat (map (bucket c) js)) \<le> 8 * length js"
  by (induction js) (use length_bucket in \<open>auto simp: add_le_mono\<close>)

subsection \<open>createAliasFile\<close>

lemma word_and1_odd: "(word_of_nat n :: u32) AND 1 \<noteq> 0 \<longleftrightarrow> odd n"
proof -
  have "(word_of_nat n :: u32) AND 1 \<noteq> 0 \<longleftrightarrow> odd (word_of_nat n :: u32)"
    by (simp add: and_one_eq mod2_eq_if)
  also have "\<dots> \<longleftrightarrow> odd n" by simp
  finally show ?thesis .
qed

lemma unat_of_nat_small: "n < 2 ^ 32 \<Longrightarrow> unat (word_of_nat n :: u32) = n"
proof -
  assume n: "n < 2 ^ 32"
  have "unat (word_of_nat n :: u32) = n mod 2 ^ 32" by (simp only: unat_of_nat) simp
  then show ?thesis using n by simp
qed

lemma ucast_of_nat_small:
  assumes "n < 2 ^ 32"
  shows "(ucast (word_of_nat n :: u32) :: 'b::len word) = word_of_nat n"
proof -
  have t: "take_bit LENGTH(32) n = n" using assms by (simp add: take_bit_nat_eq_self)
  show ?thesis by (simp only: unsigned_of_nat t)
qed

lemma drop_patch_low:
  "off + length src \<le> m \<Longrightarrow> m \<le> length d \<Longrightarrow> drop m (patch d off src) = drop m d"
  by (simp add: patch_eq)

lemma drop_patch_high:
  "m \<le> off \<Longrightarrow> off + length src \<le> length d \<Longrightarrow>
   drop m (patch d off src) = patch (drop m d) (off - m) src"
  by (simp add: patch_eq drop_take)

lemma patch_replicate0:
  "length pre \<le> N \<Longrightarrow> patch (replicate N z) 0 pre = pre @ replicate (N - length pre) z"
  by (simp add: patch_eq)

lemma memcpy_ok: "off + length src \<le> length d \<Longrightarrow> memcpy d off src = Inr (patch d off src)"
  by (simp add: memcpy_def)

lemma createAliasFile_eq:
  assumes "length volumeName + length fileName < 2 ^ 31"
  shows "createAliasFile volumeName fileName =
    (let lv = length volumeName; lf = length fileName; n = lv + lf + 1;
         P = (if odd n then n + 1 else n);
         vol = map of_char volumeName; fil = map of_char fileName;
         d = replicate (158 + P) (0 :: u8);
         d = patch d 4 (be16 (word_of_nat (158 + P)));
         d = patch d 6 (be16 2);
         d = patch d 10 [word_of_nat lv];
         d = patch d 11 vol;
         d = patch d 42 (be16 0x482b);
         d = patch d 46 (be32 2);
         d = patch d 50 [word_of_nat lf];
         d = patch d 51 fil;
         d = patch d 114 (be32 0);
         d = patch d 130 (be16 0xffff);
         d = patch d 132 (be16 0xffff);
         d = patch d 150 (be16 2);
         d = patch d 152 (be16 (word_of_nat P));
         d = patch d 154 vol;
         d = patch d (154 + lv) [of_char CHR '':''];
         d = patch d (155 + lv) fil;
         d = patch d (154 + P) [0xff];
         d = patch d (155 + P) [0xff]
     in Inr d)"
proof -
  define lv where "lv = length volumeName"
  define lf where "lf = length fileName"
  define n where "n = lv + lf + 1"
  define P where "P = (if odd n then n + 1 else n)"
  have b: "lv + lf < 2 ^ 31" using assms by (simp add: lv_def lf_def)
  have Pn: "n \<le> P" "P \<le> n + 1" by (simp_all add: P_def)
  have ulv: "unat (word_of_nat lv :: u32) = lv" by (rule unat_of_nat_small) (use b in simp)
  have ulf: "unat (word_of_nat lf :: u32) = lf" by (rule unat_of_nat_small) (use b in simp)
  have fp0: "(word_of_nat lv + word_of_nat lf + 1 :: u32) = word_of_nat n" by (simp add: n_def)
  have fp: "(if (word_of_nat n :: u32) AND 1 \<noteq> 0 then word_of_nat n + 1 else word_of_nat n)
            = (word_of_nat P :: u32)"
    by (simp only: word_and1_odd P_def) simp
  have uP: "unat (word_of_nat P :: u32) = P" by (rule unat_of_nat_small) (use b Pn n_def in simp)
  have rs: "(150 + 8 + word_of_nat P :: u32) = word_of_nat (158 + P)" by simp
  have urs: "unat (word_of_nat (158 + P) :: u32) = 158 + P"
    by (rule unat_of_nat_small) (use b Pn n_def in simp)
  have uc1: "(ucast (word_of_nat lv :: u32) :: u8) = word_of_nat lv"
    and uc2: "(ucast (word_of_nat lf :: u32) :: u8) = word_of_nat lf"
    and uc3: "(ucast (word_of_nat P :: u32) :: u16) = word_of_nat P"
    and uc4: "(ucast (word_of_nat (158 + P) :: u32) :: u16) = word_of_nat (158 + P)"
    by (rule ucast_of_nat_small, use b Pn n_def in simp)+
  show ?thesis
    unfolding createAliasFile_def Let_def lv_def[symmetric] lf_def[symmetric] fp0 fp ulv ulf uP rs urs
      uc1 uc2 uc3 uc4 n_def[symmetric] P_def[symmetric]
    using Pn by (simp add: memcpy_ok lv_def lf_def n_def)
qed

lemma patch_patch':
  "off' = off + length as \<Longrightarrow> off' + length bs \<le> length d \<Longrightarrow>
   patch (patch d off as) off' bs = patch d off (as @ bs)"
  using patch_patch[of off as bs d] by simp

lemma createAliasFile_trailer_aux:
  assumes "length volumeName \<le> 27" and "length fileName \<le> 63"
  shows "\<exists>r. createAliasFile volumeName fileName = Inr r
       \<and> length r = 158 + fullPath volumeName fileName
       \<and> drop 150 r
          = be16 2 @ be16 (word_of_nat (fullPath volumeName fileName))
            @ map of_char (volumeName @ '':'' @ fileName)
            @ (if odd (length volumeName + length fileName + 1) then [0] else [])
            @ [0xff, 0xff] @ [0, 0]"
proof -
  define lv where "lv = length volumeName"
  define lf where "lf = length fileName"
  define n where "n = lv + lf + 1"
  define P where "P = (if odd n then n + 1 else n)"
  define vol :: "u8 list" where "vol = map of_char volumeName"
  define fil :: "u8 list" where "fil = map of_char fileName"
  define Z :: "u8 list" where "Z = replicate (8 + P) 0"
  define pre where "pre = be16 2 @ be16 (word_of_nat P) @ vol @ [of_char CHR '':''] @ fil"
  have b: "lv \<le> 27" "lf \<le> 63" using assms by (simp_all add: lv_def lf_def)
  have Pn: "n \<le> P" "P \<le> n + 1" by (simp_all add: P_def)
  have lvol: "length vol = lv" and lfil: "length fil = lf" by (simp_all add: vol_def fil_def lv_def lf_def)
  have fpP: "fullPath volumeName fileName = P"
    by (simp add: fullPath_def Let_def P_def n_def lv_def lf_def)
  have small: "length volumeName + length fileName < 2 ^ 31" using assms by simp
  obtain r where r: "createAliasFile volumeName fileName = Inr r"
    and rdef: "r = patch (patch (patch (patch (patch (patch (patch (patch (patch (patch (patch
        (patch (patch (patch (patch (patch (patch (patch (replicate (158 + P) 0)
          4 (be16 (word_of_nat (158 + P)))) 6 (be16 2)) 10 [word_of_nat lv]) 11 vol)
          42 (be16 0x482b)) 46 (be32 2)) 50 [word_of_nat lf]) 51 fil) 114 (be32 0))
          130 (be16 0xffff)) 132 (be16 0xffff)) 150 (be16 2)) 152 (be16 (word_of_nat P)))
          154 vol) (154 + lv) [of_char CHR '':'']) (155 + lv) fil) (154 + P) [0xff])
          (155 + P) [0xff]"
    using createAliasFile_eq[OF small]
    by (simp add: Let_def lv_def lf_def n_def P_def vol_def fil_def)
  have len: "length r = 158 + P" by (simp add: rdef)
  have tr: "drop 150 r = patch (patch (patch (patch (patch (patch (patch Z
      0 (be16 2)) 2 (be16 (word_of_nat P))) 4 vol) (4 + lv) [of_char CHR '':''])
      (5 + lv) fil) (4 + P) [0xff]) (5 + P) [0xff]"
    unfolding rdef Z_def using b Pn
    by (simp add: drop_patch_low drop_patch_high lvol lfil n_def)
  have lZ: "length Z = 8 + P" by (simp add: Z_def)
  have s1: "patch (patch Z 0 (be16 2)) 2 (be16 (word_of_nat P))
            = patch Z 0 (be16 2 @ be16 (word_of_nat P))"
    by (rule patch_patch') (simp_all add: lZ)
  have s2: "patch (patch Z 0 (be16 2 @ be16 (word_of_nat P))) 4 vol
            = patch Z 0 ((be16 2 @ be16 (word_of_nat P)) @ vol)"
    by (rule patch_patch') (use Pn in \<open>simp_all add: lZ lvol n_def\<close>)
  have s3: "patch (patch Z 0 ((be16 2 @ be16 (word_of_nat P)) @ vol)) (4 + lv) [of_char CHR '':'']
            = patch Z 0 (((be16 2 @ be16 (word_of_nat P)) @ vol) @ [of_char CHR '':''])"
    by (rule patch_patch') (use Pn in \<open>simp_all add: lZ lvol n_def\<close>)
  have s4: "patch (patch Z 0 (((be16 2 @ be16 (word_of_nat P)) @ vol) @ [of_char CHR '':'']))
              (5 + lv) fil = patch Z 0 pre"
    unfolding pre_def append_assoc[symmetric]
    by (rule patch_patch') (use Pn in \<open>simp_all add: lZ lvol lfil n_def\<close>)
  have lpre: "length pre = 4 + n" by (simp add: pre_def lvol lfil n_def)
  have s5: "patch Z 0 pre = pre @ replicate (4 + P - n) 0"
    unfolding Z_def using patch_replicate0[of pre "8 + P" 0] Pn by (simp add: lpre)
  have tr2: "drop 150 r = patch (patch (pre @ replicate (4 + P - n) 0) (4 + P) [0xff]) (5 + P) [0xff]"
    by (simp only: tr s1 s2 s3 s4 s5)
  have fin: "patch (patch (pre @ replicate (4 + P - n) 0) (4 + P) [0xff]) (5 + P) [0xff]
        = pre @ (if odd n then [0] else []) @ [0xff, 0xff] @ [0, 0]"
  proof (cases "odd n")
    case True
    then have P: "P = n + 1" by (simp add: P_def)
    show ?thesis unfolding P using True lpre
      by (simp add: patch_eq numeral_eq_Suc)
  next
    case False
    then have P: "P = n" by (simp add: P_def)
    show ?thesis unfolding P using False lpre
      by (simp add: patch_eq numeral_eq_Suc)
  qed
  have "drop 150 r = be16 2 @ be16 (word_of_nat P) @ map of_char (volumeName @ '':'' @ fileName)
            @ (if odd n then [0] else []) @ [0xff, 0xff] @ [0, 0]"
    unfolding tr2 fin by (simp add: pre_def vol_def fil_def)
  then show ?thesis using r len by (simp add: fpP n_def lv_def lf_def)
qed

lemma rd16_be16 [simp]: "rd16 (be16 v @ rest) = v"
  unfolding rd16_def be16_def
  by (rule bit_eqI) (auto simp: bit_simps)

lemma rd32_be32 [simp]: "rd32 (be32 v @ rest) = v"
proof (rule bit_eqI)
  fix n
  assume "possible_bit TYPE(u32) n"
  consider "n < 8" | "8 \<le> n" "n < 16" | "16 \<le> n" "n < 24" | "24 \<le> n"
    by linarith
  then show "bit (rd32 (be32 v @ rest)) n \<longleftrightarrow> bit v n"
  proof cases
    case 1
    then show ?thesis by (simp add: rd32_def be32_def bit_simps)
  next
    case 2
    then show ?thesis by (auto simp: rd32_def be32_def bit_simps)
  next
    case 3
    then show ?thesis by (auto simp: rd32_def be32_def bit_simps)
  next
    case 4
    then show ?thesis by (auto simp: rd32_def be32_def bit_simps dest: bit_imp_le_length)
  qed
qed

lemma cstring_MyDisk: "cstring (map of_char ''MyDisk:bg.png'' @ [0]) = ''MyDisk:bg.png''"
  by (simp add: cstring_def char_of_def bit_0)


subsection \<open>The leaf page\<close>

lemma fits_page:
  "length pre + n \<le> unat sz \<Longrightarrow> fits (putAt (newBlock a sz) pre) n"
  by (rule fits_putAt) (rule fits_newBlock)

lemma putAt_page:
  "length pre + length bs \<le> unat sz \<Longrightarrow>
   putAt (putAt (newBlock a sz) pre) bs = putAt (newBlock a sz) (pre @ bs)"
  by (rule putAt_putAt) (rule fits_newBlock)

lemma writeInt32_page:
  "length pre + 4 \<le> unat sz \<Longrightarrow>
   writeInt32 (putAt (newBlock a sz) pre) v = Inr (putAt (newBlock a sz) (pre @ be32 v))"
  by (simp add: writeInt32_putAt fits_page putAt_page)

lemma writeInt16_page:
  "length pre + 2 \<le> unat sz \<Longrightarrow>
   writeInt16 (putAt (newBlock a sz) pre) v = Inr (putAt (newBlock a sz) (pre @ be16 v))"
  by (simp add: writeInt16_putAt fits_page putAt_page)

lemma writeInt8_page:
  "length pre + 1 \<le> unat sz \<Longrightarrow>
   writeInt8 (putAt (newBlock a sz) pre) v = Inr (putAt (newBlock a sz) (pre @ [v]))"
  by (simp add: writeInt8_putAt fits_page putAt_page)

lemma writeStr_page:
  "length pre + length s \<le> unat sz \<Longrightarrow>
   writeStr (putAt (newBlock a sz) pre) s = Inr (putAt (newBlock a sz) (pre @ map of_char s))"
  by (simp add: writeStr_putAt fits_page putAt_page)

lemma writeData_page:
  "length pre + length d \<le> unat sz \<Longrightarrow>
   writeData (putAt (newBlock a sz) pre) d = Inr (putAt (newBlock a sz) (pre @ d))"
  by (simp add: writeData_putAt fits_page putAt_page)

lemma length_chars16: "length (concat (map (\<lambda>c. be16 (char16 c)) s)) = 2 * length s"
  by (induction s) simp_all

lemma writeChars16_page:
  "length pre + 2 * length s \<le> unat sz \<Longrightarrow>
   writeChars16 (putAt (newBlock a sz) pre) s
   = Inr (putAt (newBlock a sz) (pre @ concat (map (\<lambda>c. be16 (char16 c)) s)))"
proof (induction s arbitrary: pre)
  case Nil
  then show ?case by simp
next
  case (Cons c s)
  have "writeInt16 (putAt (newBlock a sz) pre) (char16 c)
        = Inr (putAt (newBlock a sz) (pre @ be16 (char16 c)))"
    by (rule writeInt16_page) (use Cons.prems in simp)
  moreover have "writeChars16 (putAt (newBlock a sz) (pre @ be16 (char16 c))) s
        = Inr (putAt (newBlock a sz) ((pre @ be16 (char16 c)) @ concat (map (\<lambda>c. be16 (char16 c)) s)))"
    by (rule Cons.IH) (use Cons.prems in simp)
  ultimately show ?case by simp
qed

lemma unat_lt32: "unat (w :: u32) < 2 ^ 32"
  by (rule order_less_le_trans[OF unsigned_less]) simp

lemma page_index:
  fixes bs :: "Block list"
  assumes "1 \<le> length bs" and "length bs < 2 ^ 32"
  shows "blockIndex (word_of_int (int (length bs) - 1)) = length bs"
    and "(word_of_int (int (length bs) - 1) :: u32) \<noteq> 0xffffffff"
proof -
  define a where "a = \<lparr>blocks = bs, curAddr = 0\<rparr>"
  have l: "1 \<le> length (blocks a)" "length (blocks a) < 2 ^ 32" using assms by (simp_all add: a_def)
  have f: "fst (allocateBlock a 0) = word_of_int (int (length bs) - 1)"
    by (simp add: fst_allocateBlock a_def)
  show "blockIndex (word_of_int (int (length bs) - 1)) = length bs"
    using allocateBlock_id(2)[OF l, of 0] by (simp add: f) (simp add: a_def)
  show "(word_of_int (int (length bs) - 1) :: u32) \<noteq> 0xffffffff"
    using allocateBlock_id(3)[OF l, of 0] by (simp add: f)
qed

lemma sel_pageTree [simp]:
  "entryCount (pageTree bs a sz pre ca cnt) = cnt"
  "curPageId (pageTree bs a sz pre ca cnt) = word_of_int (int (length bs) - 1)"
  by (simp_all add: pageTree_def)

lemma sel_leafTree [simp]:
  "entryCount (leafTree pre cnt) = cnt" "curPageId (leafTree pre cnt) = 1"
  by (simp_all add: leafTree_def)

lemma sel_finishedTree [simp]:
  "entryCount (finishedTree pre cnt post cnt') = cnt'" "curPageId (finishedTree pre cnt post cnt') = 2"
  by (simp_all add: finishedTree_def)

lemma entryCount_pageTree:
  "(pageTree bs a sz pre ca cnt)\<lparr>entryCount := c\<rparr> = pageTree bs a sz pre ca c"
  by (simp add: pageTree_def)

lemma onPage_pageTree:
  assumes "1 \<le> length bs" and "length bs < 2 ^ 32"
    and "f (putAt (newBlock a sz) pre) = Inr (putAt (newBlock a sz) pre')"
  shows "onPage (pageTree bs a sz pre ca cnt) f = Inr (pageTree bs a sz pre' ca cnt)"
  using assms(3) page_index[OF assms(1,2)]
  by (simp add: onPage_def pageTree_def getBlock_def setBlock_def)

lemma length_encodeName: "length (encodeName s) = 4 + 2 * length s"
  by (simp add: encodeName_def length_chars16)


lemma writeFileName_pageTree:
  assumes "1 \<le> length bs" and "length bs < 2 ^ 32"
    and "length pre + 4 + 2 * length s \<le> unat sz"
  shows "writeFileName (pageTree bs a sz pre ca cnt) s
         = Inr (pageTree bs a sz (pre @ encodeName s) ca cnt)"
proof -
  have "length s < 2 ^ 32" using assms(3) unat_lt32[of sz] by simp
  then have u: "unat (word_of_nat (length s) :: u32) = length s"
    by (rule unat_of_nat_small)
  show ?thesis
    unfolding writeFileName_def
    apply (rule onPage_pageTree[OF assms(1,2)])
    using assms(3) by (simp add: Let_def u writeInt32_page writeChars16_page encodeName_def)
qed

lemma newBTree_new: "newBTree newBuddyAllocator = Inr (leafTree (be32 0 @ be32 0) 0)"
proof -
  have a: "allocateBlock newBuddyAllocator 2048
           = (1, \<lparr>blocks = [newBlock 0 32, newBlock 32 2048, newBlock 2080 2048], curAddr = 4128\<rparr>)"
    by (simp add: allocateBlock_def Let_def newBuddyAllocator_eq powerOf2Ceil_2048)
  have e: "\<lparr>buddy = \<lparr>blocks = [newBlock 0 32, newBlock 32 2048, newBlock 2080 2048], curAddr = 4128\<rparr>,
            entryCount = 0, curPageId = 1\<rparr> = leafTree [] 0"
    by (simp add: leafTree_def pageTree_def putAt_Nil)
  have "onPage (leafTree [] 0) (\<lambda>b. bind (writeInt32 b 0) (\<lambda>b. writeInt32 b 0))
        = Inr (leafTree (be32 0 @ be32 0) 0)"
    unfolding leafTree_def
    by (rule onPage_pageTree) (simp_all add: writeInt32_page[of "[]", simplified] writeInt32_page)
  then show ?thesis by (simp add: newBTree_def a e)
qed

lemma applyCall_pageTree:
  assumes b1: "1 \<le> length bs" and b2: "length bs < 2 ^ 32"
    and "length pre + length (encodeEntry c) \<le> unat sz"
  shows "applyCall (pageTree bs a sz pre ca cnt) c
         = Inr (pageTree bs a sz (pre @ encodeEntry c) ca (cnt + 1))"
proof (cases c)
  case (AddBlob fileName recordType data)
  have l: "length pre + (4 + 2 * length fileName) + length recordType + 4 + 4 + length data \<le> unat sz"
    using assms by (simp add: AddBlob length_encodeName)
  then have "length data < 2 ^ 32" using unat_lt32[of sz] by simp
  have n: "writeFileName (pageTree bs a sz pre ca (cnt + 1)) fileName
           = Inr (pageTree bs a sz (pre @ encodeName fileName) ca (cnt + 1))"
    by (rule writeFileName_pageTree[OF b1 b2]) (use l in simp)
  have "onPage (pageTree bs a sz (pre @ encodeName fileName) ca (cnt + 1)) (\<lambda>b.
        bind (writeStr b recordType) (\<lambda>b.
        bind (writeStr b ''blob'') (\<lambda>b.
        bind (writeInt32 b (word_of_nat (length data))) (\<lambda>b.
        writeData b data))))
      = Inr (pageTree bs a sz (pre @ encodeEntry (AddBlob fileName recordType data)) ca (cnt + 1))"
    by (rule onPage_pageTree[OF b1 b2])
       (use l in \<open>simp add: writeStr_page writeInt32_page writeData_page length_encodeName\<close>)
  then show ?thesis
    by (simp add: AddBlob addBlob_def Let_def entryCount_pageTree n)
next
  case (AddBool fileName recordType v)
  have l: "length pre + (4 + 2 * length fileName) + length recordType + 4 + 1 \<le> unat sz"
    using assms by (simp add: AddBool length_encodeName)
  have n: "writeFileName (pageTree bs a sz pre ca (cnt + 1)) fileName
           = Inr (pageTree bs a sz (pre @ encodeName fileName) ca (cnt + 1))"
    by (rule writeFileName_pageTree[OF b1 b2]) (use l in simp)
  have "onPage (pageTree bs a sz (pre @ encodeName fileName) ca (cnt + 1)) (\<lambda>b.
        bind (writeStr b recordType) (\<lambda>b.
        bind (writeStr b ''bool'') (\<lambda>b.
        writeInt8 b v)))
      = Inr (pageTree bs a sz (pre @ encodeEntry (AddBool fileName recordType v)) ca (cnt + 1))"
    by (rule onPage_pageTree[OF b1 b2])
       (use l in \<open>simp add: writeStr_page writeInt8_page length_encodeName\<close>)
  then show ?thesis
    by (simp add: AddBool addBool_def Let_def entryCount_pageTree n)
next
  case (AddShort fileName recordType v)
  have l: "length pre + (4 + 2 * length fileName) + length recordType + 4 + 4 \<le> unat sz"
    using assms by (simp add: AddShort length_encodeName)
  have n: "writeFileName (pageTree bs a sz pre ca (cnt + 1)) fileName
           = Inr (pageTree bs a sz (pre @ encodeName fileName) ca (cnt + 1))"
    by (rule writeFileName_pageTree[OF b1 b2]) (use l in simp)
  have "onPage (pageTree bs a sz (pre @ encodeName fileName) ca (cnt + 1)) (\<lambda>b.
        bind (writeStr b recordType) (\<lambda>b.
        bind (writeStr b ''shor'') (\<lambda>b.
        writeInt32 b (ucast v))))
      = Inr (pageTree bs a sz (pre @ encodeEntry (AddShort fileName recordType v)) ca (cnt + 1))"
    by (rule onPage_pageTree[OF b1 b2])
       (use l in \<open>simp add: writeStr_page writeInt32_page length_encodeName\<close>)
  then show ?thesis
    by (simp add: AddShort addShort_def Let_def entryCount_pageTree n)
qed

lemma applyCalls_pageTree:
  assumes b1: "1 \<le> length bs" and b2: "length bs < 2 ^ 32"
    and "length pre + length (concat (map encodeEntry cs)) \<le> unat sz"
  shows "applyCalls (pageTree bs a sz pre ca cnt) cs
         = Inr (pageTree bs a sz (pre @ concat (map encodeEntry cs)) ca
                 (cnt + word_of_nat (length cs)))"
  using assms(3)
proof (induction cs arbitrary: pre cnt)
  case Nil
  then show ?case by simp
next
  case (Cons c cs)
  have "applyCall (pageTree bs a sz pre ca cnt) c
        = Inr (pageTree bs a sz (pre @ encodeEntry c) ca (cnt + 1))"
    by (rule applyCall_pageTree[OF b1 b2]) (use Cons.prems in simp)
  moreover have "applyCalls (pageTree bs a sz (pre @ encodeEntry c) ca (cnt + 1)) cs
      = Inr (pageTree bs a sz ((pre @ encodeEntry c) @ concat (map encodeEntry cs)) ca
              (cnt + 1 + word_of_nat (length cs)))"
    by (rule Cons.IH) (use Cons.prems in simp)
  ultimately show ?case by (simp add: add.assoc)
qed

lemma applyCalls_leafTree:
  assumes "length pre + length (concat (map encodeEntry cs)) \<le> 2048"
  shows "applyCalls (leafTree pre cnt) cs
         = Inr (leafTree (pre @ concat (map encodeEntry cs)) (cnt + word_of_nat (length cs)))"
  unfolding leafTree_def by (rule applyCalls_pageTree) (use assms in simp_all)

lemma applyCall_leafTree:
  assumes "length pre + length (encodeEntry c) \<le> 2048"
  shows "applyCall (leafTree pre cnt) c = Inr (leafTree (pre @ encodeEntry c) (cnt + 1))"
  unfolding leafTree_def by (rule applyCall_pageTree) (use assms in simp_all)

lemma applyCall_finishedTree:
  assumes "length post + length (encodeEntry c) \<le> 12"
  shows "applyCall (finishedTree pre cnt post cnt') c
         = Inr (finishedTree pre cnt (post @ encodeEntry c) (cnt' + 1))"
proof -
  have "applyCall (pageTree [newBlock 0 32, newBlock 32 2048, finishedLeaf pre cnt] 4128 32
          (masterBytes cnt @ post) 4160 cnt') c
        = Inr (pageTree [newBlock 0 32, newBlock 32 2048, finishedLeaf pre cnt] 4128 32
          ((masterBytes cnt @ post) @ encodeEntry c) 4160 (cnt' + 1))"
    by (rule applyCall_pageTree) (use assms in \<open>simp_all add: masterBytes_def\<close>)
  then show ?thesis by (simp add: finishedTree_def)
qed

lemma finish_leafTree:
  assumes "8 \<le> length pre" and "length pre \<le> 2048"
  shows "finish (leafTree pre cnt) = Inr (2, finishedTree pre cnt [] cnt)"
proof -
  have sk: "writeInt32 (seek (putAt (newBlock 2080 2048) pre) 4) cnt = Inr (finishedLeaf pre cnt)"
  proof -
    have f: "fits (seek (putAt (newBlock 2080 2048) pre) 4) 4"
      by (simp add: fits_def seek_def putAt_def newBlock_def)
    show ?thesis
      by (simp add: writeInt32_putAt[OF f])
         (simp add: putAt_def seek_def newBlock_def finishedLeaf_def)
  qed
  have p1: "onPage (leafTree pre cnt) (\<lambda>b. writeInt32 (seek b 4) cnt)
        = Inr \<lparr>buddy = \<lparr>blocks = [newBlock 0 32, newBlock 32 2048, finishedLeaf pre cnt],
                            curAddr = 4128\<rparr>, entryCount = cnt, curPageId = 1\<rparr>"
    by (simp add: onPage_def leafTree_def pageTree_def getBlock_def blockIndex_def setBlock_def sk)
  have al: "allocateBlock \<lparr>blocks = [newBlock 0 32, newBlock 32 2048, finishedLeaf pre cnt],
                            curAddr = 4128\<rparr> 20
      = (2, \<lparr>blocks = [newBlock 0 32, newBlock 32 2048, finishedLeaf pre cnt, newBlock 4128 32],
             curAddr = 4160\<rparr>)"
    by (simp add: allocateBlock_def Let_def powerOf2Ceil_20)
  have e: "\<lparr>buddy = \<lparr>blocks = [newBlock 0 32, newBlock 32 2048, finishedLeaf pre cnt, newBlock 4128 32],
                       curAddr = 4160\<rparr>, entryCount = cnt, curPageId = 2\<rparr>
      = pageTree [newBlock 0 32, newBlock 32 2048, finishedLeaf pre cnt] 4128 32 [] 4160 cnt"
    by (simp add: pageTree_def putAt_Nil)
  have p2: "onPage (pageTree [newBlock 0 32, newBlock 32 2048, finishedLeaf pre cnt] 4128 32 [] 4160 cnt)
      (\<lambda>master.
          bind (writeInt32 master 1) (\<lambda>master.
          bind (writeInt32 master 0) (\<lambda>master.
          bind (writeInt32 master cnt) (\<lambda>master.
          bind (writeInt32 master 1) (\<lambda>master.
          writeInt32 master 4096)))))
      = Inr (finishedTree pre cnt [] cnt)"
    unfolding finishedTree_def
    by (rule onPage_pageTree)
       (simp_all add: writeInt32_page[of "[]", simplified] writeInt32_page masterBytes_def)
  show ?thesis
    unfolding finish_def by (simp add: p1 Let_def al e p2)
qed

lemma length_encodeEntry_ge: "9 \<le> length (encodeEntry c)"
  by (cases c) (simp_all add: length_encodeName)

lemma length_entries_ge: "9 * length cs \<le> length (concat (map encodeEntry cs))"
proof (induction cs)
  case Nil
  then show ?case by simp
next
  case (Cons c cs)
  then show ?case using length_encodeEntry_ge[of c] by simp
qed

lemma count_finishedLeaf:
  assumes "8 \<le> length pre" and "length pre \<le> 2048"
  shows "rd32 (drop 4 (bytes (finishedLeaf pre cnt))) = cnt"
proof -
  have "drop 4 (patch (patch (replicate 2048 0) 0 pre) 4 (be32 cnt))
        = be32 cnt @ drop 8 (patch (replicate 2048 0) 0 pre)"
    by (simp add: patch_eq)
  then show ?thesis by (simp add: finishedLeaf_def)
qed

lemma getBlock_finishedTree:
  "getBlock (buddy (finishedTree pre cnt post cnt')) 1 = Inr (finishedLeaf pre cnt)"
  "getBlock (buddy (finishedTree pre cnt post cnt')) 2
     = Inr (putAt (newBlock 4128 32) (masterBytes cnt @ post))"
  by (simp_all add: finishedTree_def pageTree_def getBlock_def blockIndex_def)

lemma getBlock_leafTree:
  "getBlock (buddy (leafTree pre cnt)) 1 = Inr (putAt (newBlock 2080 2048) pre)"
  by (simp add: leafTree_def pageTree_def getBlock_def blockIndex_def)

lemma bytes_page:
  "length pre \<le> unat sz \<Longrightarrow>
   bytes (putAt (newBlock a sz) pre) = pre @ replicate (unat sz - length pre) 0"
  by (simp add: bytes_putAt_newBlock patch_replicate0)

lemma length_masterBytes [simp]: "length (masterBytes cnt) = 20"
  by (simp add: masterBytes_def)


subsection \<open>The metadata block\<close>

lemma bit_pow2_word: "k < 32 \<Longrightarrow> bit (2 ^ k :: u32) i \<longleftrightarrow> i = k"
  by (auto simp: bit_exp_iff)

lemma clz_pow2:
  assumes "k < 32"
  shows "clz (2 ^ k) = 31 - k"
proof -
  have "[0..<32] = [0..<k] @ [k..<32]"
    using assms upt_add_eq_append[of 0 k "32 - k"] by simp
  also have "[k..<32] = k # [Suc k..<32]" using assms by (simp add: upt_conv_Cons)
  finally have sp: "rev [0..<32] = rev [Suc k..<32] @ k # rev [0..<k]" by simp
  have a: "\<And>i. i \<in> set (rev [Suc k..<32]) \<Longrightarrow> \<not> bit (2 ^ k :: u32) i"
    using assms by (simp add: bit_pow2_word)
  have b: "bit (2 ^ k :: u32) k" using assms by (simp add: bit_pow2_word)
  have "takeWhile (\<lambda>i. \<not> bit (2 ^ k :: u32) i) (rev [Suc k..<32] @ k # rev [0..<k])
        = rev [Suc k..<32] @ takeWhile (\<lambda>i. \<not> bit (2 ^ k :: u32) i) (k # rev [0..<k])"
    by (rule takeWhile_append2) (rule a)
  also have "\<dots> = rev [Suc k..<32]" using b by simp
  finally have "clz (2 ^ k) = length (rev [Suc k..<32])"
    unfolding clz_def sp by (rule arg_cong)
  then show ?thesis by simp
qed

lemma getLog2_pow2:
  assumes "k < 32"
  shows "getLog2 (2 ^ k) = Inr (word_of_nat k)"
proof -
  have "bit (2 ^ k :: u32) k" using assms by (simp add: bit_pow2_word)
  then have nz: "(2 ^ k :: u32) \<noteq> 0" by (metis bit_0_eq bot_apply bot_bool_def)
  have "31 - int (31 - k) = int k" using assms by simp
  then have "(word_of_int (31 - int (clz (2 ^ k))) :: u32) = word_of_nat k"
    by (simp only: clz_pow2[OF assms]) simp
  then show ?thesis unfolding getLog2_def using nz by simp
qed

lemma length_tableEntry: "tableOK a i \<Longrightarrow> length (tableEntry a i) = 4"
  by (auto simp: tableOK_def tableEntry_def getLog2_def)

lemma tableStep_page:
  assumes "tableOK a i" and "length pre + 4 \<le> unat sz"
  shows "tableStep a i (putAt (newBlock c sz) pre)
         = Inr (putAt (newBlock c sz) (pre @ tableEntry a i))"
  using assms
  by (auto simp: tableOK_def tableStep_def tableEntry_def getLog2_def Let_def getAddr_def
      writeInt32_page)

lemma length_table:
  "(\<forall>j\<in>set js. tableOK a j) \<Longrightarrow> length (concat (map (tableEntry a) js)) = 4 * length js"
  by (induction js) (simp_all add: length_tableEntry)

lemma tableLoop_page:
  assumes "\<forall>j\<in>set js. tableOK a j" and "length pre + 4 * length js \<le> unat sz"
  shows "forLoop js (tableStep a) (putAt (newBlock c sz) pre)
         = Inr (putAt (newBlock c sz) (pre @ concat (map (tableEntry a) js)))"
  using assms
proof (induction js arbitrary: pre)
  case Nil
  then show ?case by simp
next
  case (Cons j js)
  have s: "tableStep a j (putAt (newBlock c sz) pre)
           = Inr (putAt (newBlock c sz) (pre @ tableEntry a j))"
    by (rule tableStep_page) (use Cons.prems in simp_all)
  have "forLoop js (tableStep a) (putAt (newBlock c sz) (pre @ tableEntry a j))
        = Inr (putAt (newBlock c sz) ((pre @ tableEntry a j) @ concat (map (tableEntry a) js)))"
    by (rule Cons.IH) (use Cons.prems length_tableEntry[of a j] in simp_all)
  then show ?case by (simp add: s)
qed

lemma freeList_page:
  assumes "length pre + 256 \<le> unat sz"
  shows "forLoop [0..<32] freeListStep (putAt (newBlock a sz) pre, c)
         = Inr (putAt (newBlock a sz) (pre @ concat (map (bucket c) [0..<32])), 0)"
proof -
  have f: "fits (putAt (newBlock a sz) pre) (8 * (32 - 0))"
    by (rule fits_page) (use assms in simp)
  have "forLoop [0..<32] freeListStep (putAt (newBlock a sz) pre, freeAddr c 0)
        = Inr (putAt (putAt (newBlock a sz) pre) (concat (map (bucket c) [0..<32])), freeAddr c 32)"
    by (rule freeList_putAt) (use f in simp_all)
  moreover have "putAt (putAt (newBlock a sz) pre) (concat (map (bucket c) [0..<32]))
        = putAt (newBlock a sz) (pre @ concat (map (bucket c) [0..<32]))"
    by (rule putAt_page) (use assms length_buckets_le[of c "[0..<32]"] in simp)
  ultimately show ?thesis by (simp only: freeAddr_32 freeAddr.simps)
qed

lemma shape_page [simp]:
  "getAddr (putAt (newBlock a sz) pre) = a"
  "bsize (putAt (newBlock a sz) pre) = sz"
  "addr (putAt (newBlock a sz) pre) = a"
  "length (bytes (putAt (newBlock a sz) pre)) = unat sz"
  by (simp_all add: getAddr_def bsize_def putAt_def newBlock_def)

lemma length_metaBytes:
  assumes "\<forall>j<256. tableOK a j"
  shows "length (metaBytes a bTreeBlockId) \<le> 1301"
proof -
  have "length (concat (map (tableEntry a) [0..<256])) = 4 * length [0..<256]"
    by (rule length_table) (use assms in simp)
  then show ?thesis
    using length_buckets_le[of "curAddr a" "[0..<32]"] by (simp add: metaBytes_def)
qed

lemma createMetaDataBlock_fresh:
  assumes bl: "blocks a = newBlock 0 32 # newBlock 32 2048 # rest"
    and ok: "\<forall>j<256. tableOK a j"
  shows "createMetaDataBlock a bTreeBlockId
         = Inr \<lparr>blocks = putAt (newBlock 0 32) headerBytes
                         # putAt (newBlock 32 2048) (metaBytes a bTreeBlockId) # rest,
                curAddr = 0\<rparr>"
proof -
  define cntw :: u32 where "cntw = word_of_int (int (length (blocks a)) - 1)"
  define tbl where "tbl = concat (map (tableEntry a) [0..<256])"
  have lt: "length tbl = 1024"
    unfolding tbl_def using length_table[of "[0..<256]" a] ok by simp
  have m0: "blocks a ! 1 = putAt (newBlock 32 2048) []" by (simp add: bl putAt_Nil)
  have h0: "blocks a ! 0 = putAt (newBlock 0 32) []" by (simp add: bl putAt_Nil)
  have w1: "writeInt32 (putAt (newBlock 32 2048) []) cntw = Inr (putAt (newBlock 32 2048) (be32 cntw))"
    using writeInt32_page[of "[]" 2048 32 cntw] by simp
  have w2: "writeInt32 (putAt (newBlock 32 2048) (be32 cntw)) 0
            = Inr (putAt (newBlock 32 2048) (be32 cntw @ be32 0))"
    using writeInt32_page[of "be32 cntw" 2048 32 0] by simp
  have w3: "forLoop [0..<256] (tableStep a) (putAt (newBlock 32 2048) (be32 cntw @ be32 0))
            = Inr (putAt (newBlock 32 2048) ((be32 cntw @ be32 0) @ tbl))"
    unfolding tbl_def by (rule tableLoop_page) (use ok in simp_all)
  have w4: "writeInt32 (putAt (newBlock 32 2048) ((be32 cntw @ be32 0) @ tbl)) 1
            = Inr (putAt (newBlock 32 2048) (((be32 cntw @ be32 0) @ tbl) @ be32 1))"
    by (rule writeInt32_page) (simp add: lt)
  have w5: "writeInt8 (putAt (newBlock 32 2048) (((be32 cntw @ be32 0) @ tbl) @ be32 1)) 4
            = Inr (putAt (newBlock 32 2048) ((((be32 cntw @ be32 0) @ tbl) @ be32 1) @ [4]))"
    by (rule writeInt8_page) (simp add: lt)
  have w6: "writeStr (putAt (newBlock 32 2048) ((((be32 cntw @ be32 0) @ tbl) @ be32 1) @ [4])) ''DSDB''
            = Inr (putAt (newBlock 32 2048)
                (((((be32 cntw @ be32 0) @ tbl) @ be32 1) @ [4]) @ map of_char ''DSDB''))"
    by (rule writeStr_page) (simp add: lt)
  have w7: "writeInt32 (putAt (newBlock 32 2048)
                (((((be32 cntw @ be32 0) @ tbl) @ be32 1) @ [4]) @ map of_char ''DSDB'')) bTreeBlockId
            = Inr (putAt (newBlock 32 2048)
                ((((((be32 cntw @ be32 0) @ tbl) @ be32 1) @ [4]) @ map of_char ''DSDB'')
                  @ be32 bTreeBlockId))"
    by (rule writeInt32_page) (simp add: lt)
  have w8: "forLoop [0..<32] freeListStep (putAt (newBlock 32 2048)
                ((((((be32 cntw @ be32 0) @ tbl) @ be32 1) @ [4]) @ map of_char ''DSDB'')
                  @ be32 bTreeBlockId), curAddr a)
            = Inr (putAt (newBlock 32 2048)
                (((((((be32 cntw @ be32 0) @ tbl) @ be32 1) @ [4]) @ map of_char ''DSDB'')
                  @ be32 bTreeBlockId) @ concat (map (bucket (curAddr a)) [0..<32])), 0)"
    by (rule freeList_page) (simp add: lt)
  have mb: "((((((be32 cntw @ be32 0) @ tbl) @ be32 1) @ [4]) @ map of_char ''DSDB'')
                  @ be32 bTreeBlockId) @ concat (map (bucket (curAddr a)) [0..<32])
            = metaBytes a bTreeBlockId"
    by (simp add: metaBytes_def cntw_def tbl_def)
  have h1: "writeStr (putAt (newBlock 0 32) []) ''Bud1''
            = Inr (putAt (newBlock 0 32) (map of_char ''Bud1''))"
    using writeStr_page[of "[]" "''Bud1''" 32 0] by simp
  have h2: "writeInt32 (putAt (newBlock 0 32) (map of_char ''Bud1'')) 32
            = Inr (putAt (newBlock 0 32) (map of_char ''Bud1'' @ be32 32))"
    by (rule writeInt32_page) simp
  have h3: "writeInt32 (putAt (newBlock 0 32) (map of_char ''Bud1'' @ be32 32)) 2048
            = Inr (putAt (newBlock 0 32) ((map of_char ''Bud1'' @ be32 32) @ be32 2048))"
    by (rule writeInt32_page) simp
  have h4: "writeInt32 (putAt (newBlock 0 32) ((map of_char ''Bud1'' @ be32 32) @ be32 2048)) 32
            = Inr (putAt (newBlock 0 32) (((map of_char ''Bud1'' @ be32 32) @ be32 2048) @ be32 32))"
    by (rule writeInt32_page) simp
  have hb: "((map of_char ''Bud1'' @ be32 32) @ be32 2048) @ be32 32 = headerBytes"
    by (simp add: headerBytes_def)
  have l: "1 < length (blocks a)" by (simp add: bl)
  show ?thesis
    unfolding createMetaDataBlock_def Let_def cntw_def[symmetric] m0 h0
    using l
    by (simp only: w1 w2 w3 w4 w5 w6 w7 w8 mb bind_Inr if_False if_True prod.case
          shape_page h1 h2 h3 h4 hb simp_thms)
       (simp add: bl)
qed

lemma pow2len_newBlock: "pow2len (newBlock c (powerOf2Ceil n))"
  using powerOf2Ceil_range[of n]
  by (auto simp: pow2len_def newBlock_def unat_pow2)

lemma reachable_inv:
  assumes "reachable a"
  shows "2 \<le> length (blocks a) \<and> blocks a ! 0 = newBlock 0 32 \<and> addr (blocks a ! 1) = 32
         \<and> length (bytes (blocks a ! 1)) = 2048 \<and> (\<forall>b\<in>set (blocks a). pow2len b)"
  using assms
proof (induction rule: reachable.induct)
  case r_init
  have "pow2len (newBlock 0 (powerOf2Ceil 32))" "pow2len (newBlock 32 (powerOf2Ceil 2048))"
    by (rule pow2len_newBlock)+
  then show ?case by (simp add: newBuddyAllocator_eq powerOf2Ceil_32 powerOf2Ceil_2048 newBlock_def)
next
  case (r_alloc a n)
  then show ?case
    by (auto simp: blocks_allocateBlock nth_append pow2len_newBlock)
next
  case (r_write a blockId b bs off)
  from r_write.hyps(2) have ne: "blockId \<noteq> 0xffffffff"
    and ix: "blockIndex blockId < length (blocks a)"
    and b: "b = blocks a ! blockIndex blockId"
    by (auto simp: getBlock_def split: if_splits)
  have "blockId + 1 \<noteq> 0"
  proof
    assume "blockId + 1 = 0"
    then have "blockId = - 1" by (simp add: add_eq_0_iff2)
    with ne show False by simp
  qed
  then have pos: "0 < blockIndex blockId" by (simp add: blockIndex_def unat_gt_0)
  define b' where "b' = b\<lparr>bytes := bs, curOffset := off\<rparr>"
  have sh: "addr b' = addr b" "length (bytes b') = length (bytes b)"
    using r_write.hyps(3) by (simp_all add: b'_def)
  have pb: "pow2len b'" using r_write.IH ix b sh by (auto simp: pow2len_def)
  have bl: "blocks (setBlock a blockId b') = (blocks a)[blockIndex blockId := b']"
    by (simp add: setBlock_def)
  have one: "addr ((blocks a)[blockIndex blockId := b'] ! 1) = 32
      \<and> length (bytes ((blocks a)[blockIndex blockId := b'] ! 1)) = 2048"
  proof (cases "blockIndex blockId = 1")
    case True
    then show ?thesis using r_write.IH sh b ix by simp
  next
    case False
    then show ?thesis using r_write.IH by simp
  qed
  have all: "\<forall>x\<in>set ((blocks a)[blockIndex blockId := b']). pow2len x"
    using r_write.IH pb by (auto dest!: set_update_subset_insert[THEN subsetD])
  show ?case
    unfolding b'_def[symmetric] bl using r_write.IH pos one all by simp
qed

lemma drop_concat_fixed:
  assumes "\<forall>j\<in>set js. length (f j) = n"
  shows "drop (n * i) (concat (map f js)) = concat (map f (drop i js))"
  using assms
proof (induction js arbitrary: i)
  case Nil
  then show ?case by simp
next
  case (Cons j js)
  show ?case
  proof (cases i)
    case 0
    then show ?thesis by simp
  next
    case (Suc i')
    then show ?thesis using Cons by simp
  qed
qed

lemma mask5: "(0x1f :: u32) = mask 5"
  by (simp add: mask_eq_exp_minus_1)

lemma decode_entry:
  fixes a :: u32
  assumes "a AND 0x1f = 0" and "k < 32"
  shows "(a OR word_of_nat k) AND NOT 0x1f = a" and "(a OR word_of_nat k) AND 0x1f = word_of_nat k"
proof -
  have lo: "\<not> bit a i" if "i < 5" for i
  proof -
    have "bit (a AND mask 5) i \<longleftrightarrow> bit a i" using that by (simp add: bit_and_iff bit_mask_iff)
    then show ?thesis using assms(1) by (simp add: mask5)
  qed
  have hi: "\<not> bit (word_of_nat k :: u32) i" if "5 \<le> i" for i
  proof -
    have "k < 2 ^ 5" using assms(2) by simp
    then have "\<not> bit k i" using that by (rule nat_lt_pow_no_bit)
    then show ?thesis by (simp add: bit_of_nat_iff)
  qed
  have hi': "i < 5" if "bit (word_of_nat k :: u32) i" for i
    using hi[of i] that by (cases "i < 5") simp_all
  show "(a OR word_of_nat k) AND NOT 0x1f = a"
    unfolding mask5
    by (rule bit_eqI) (use lo hi in \<open>auto simp: bit_and_iff bit_or_iff bit_not_iff bit_mask_iff\<close>)
  show "(a OR word_of_nat k) AND 0x1f = word_of_nat k"
    unfolding mask5
    by (rule bit_eqI) (use lo hi hi' in \<open>auto simp: bit_and_iff bit_or_iff bit_mask_iff\<close>)
qed

lemma layout_tl_nth:
  assumes "i < length (blocks a) - 1"
  shows "tl (layout a) ! i = (addr (blocks a ! (i + 1)), length (bytes (blocks a ! (i + 1))))"
  using assms by (simp add: layout_def nth_tl map_tl[symmetric])

lemma rd32_prefix:
  assumes "length xs = 4"
  shows "rd32 (xs @ Y) = rd32 xs"
proof -
  from assms obtain a b c d where "xs = [a, b, c, d]"
    by (auto simp: numeral_eq_Suc length_Suc_conv)
  then show ?thesis by (simp add: rd32_def)
qed

lemma rd32_be32_only [simp]: "rd32 (be32 v) = v"
  using rd32_be32[of v "[]"] by simp

lemma table_drop:
  assumes ok: "\<forall>j<256. tableOK a j" and i: "i < 256"
  shows "\<exists>X. drop (8 + 4 * i) (metaBytes a bTreeBlockId @ R) = tableEntry a i @ X"
proof -
  define tbl where "tbl = concat (map (tableEntry a) [0..<256])"
  define S where "S = be32 1 @ [4] @ map of_char ''DSDB'' @ be32 bTreeBlockId
     @ concat (map (bucket (curAddr a)) [0..<32]) @ R"
  have l4: "\<forall>j\<in>set [0..<256]. length (tableEntry a j) = 4"
    using ok by (simp add: length_tableEntry)
  have lt: "length tbl = 1024"
    unfolding tbl_def using length_table[of "[0..<256]" a] ok by simp
  have "metaBytes a bTreeBlockId @ R
        = (be32 (word_of_int (int (length (blocks a)) - 1)) @ be32 0) @ tbl @ S"
    by (simp add: metaBytes_def tbl_def S_def)
  then have "drop (8 + 4 * i) (metaBytes a bTreeBlockId @ R) = drop (4 * i) (tbl @ S)"
    by simp
  also have "\<dots> = drop (4 * i) tbl @ S" using i lt by simp
  also have "drop (4 * i) tbl = concat (map (tableEntry a) (drop i [0..<256]))"
    unfolding tbl_def using l4 by (rule drop_concat_fixed)
  also have "drop i [0..<256] = [i..<256]" by simp
  also have "[i..<256] = i # [Suc i..<256]" using i by (rule upt_conv_Cons)
  finally show ?thesis by (simp del: upt_Suc)
qed

lemma table_decode:
  assumes "reachable a" and "blocks a ! 1 = newBlock 32 2048" and "length (blocks a) \<le> 257"
    and "\<forall>b\<in>set (tl (blocks a)). addr b AND 0x1f = 0 \<and> bytes b \<noteq> []"
  shows "\<exists>a'. createMetaDataBlock a bTreeBlockId = Inr a'
           \<and> decodeTable (bytes (blocks a' ! 1)) = tl (layout a)
           \<and> layout a' = layout a
           \<and> (\<forall>i. length (blocks a) - 1 \<le> i \<and> i < 256 \<longrightarrow>
                  rd32 (drop (8 + 4 * i) (bytes (blocks a' ! 1))) = 0)"
proof -
  note inv = reachable_inv[OF assms(1)]
  obtain rest where bl: "blocks a = newBlock 0 32 # newBlock 32 2048 # rest"
  proof -
    from inv obtain x y rest where "blocks a = x # y # rest"
      by (cases "blocks a"; cases "tl (blocks a)") auto
    with inv assms(2) have "blocks a = newBlock 0 32 # newBlock 32 2048 # rest" by simp
    then show ?thesis by (rule that)
  qed
  define len where "len = length (blocks a)"
  have len2: "2 \<le> len" "len \<le> 257" using inv assms(3) by (simp_all add: len_def)
  have blk: "\<exists>k<32. length (bytes (blocks a ! (i + 1))) = 2 ^ k
               \<and> bsize (blocks a ! (i + 1)) = 2 ^ k
               \<and> addr (blocks a ! (i + 1)) AND 0x1f = 0" if "i < len - 1" for i
  proof -
    have "tl (blocks a) ! i \<in> set (tl (blocks a))"
      by (rule nth_mem) (use that in \<open>simp add: len_def\<close>)
    then have m: "blocks a ! (i + 1) \<in> set (tl (blocks a))"
      by (simp add: bl)
    then have m': "blocks a ! (i + 1) \<in> set (blocks a)" by (simp add: bl)
    from m assms(4) have al: "addr (blocks a ! (i + 1)) AND 0x1f = 0"
      and ne: "bytes (blocks a ! (i + 1)) \<noteq> []" by blast+
    from inv m' have "pow2len (blocks a ! (i + 1))" by blast
    with ne obtain k where k: "k < 32" "length (bytes (blocks a ! (i + 1))) = 2 ^ k"
      by (auto simp: pow2len_def)
    then have "bsize (blocks a ! (i + 1)) = 2 ^ k" by (simp add: bsize_def)
    with k al show ?thesis by blast
  qed
  have ok: "\<forall>j<256. tableOK a j"
  proof (intro allI impI)
    fix j :: nat
    show "tableOK a j"
    proof (cases "j < len - 1")
      case True
      from blk[OF True] obtain k where k: "k < 32" "bsize (blocks a ! (j + 1)) = 2 ^ k"
        "addr (blocks a ! (j + 1)) AND 0x1f = 0" by blast
      have "bit (2 ^ k :: u32) k" using k(1) by (simp add: bit_pow2_word)
      then have "(2 ^ k :: u32) \<noteq> 0" by (metis bit_0_eq bot_apply bot_bool_def)
      then show ?thesis using k by (simp add: tableOK_def)
    next
      case False
      then show ?thesis by (simp add: tableOK_def len_def)
    qed
  qed
  define a' where "a' = \<lparr>blocks = putAt (newBlock 0 32) headerBytes
                         # putAt (newBlock 32 2048) (metaBytes a bTreeBlockId) # rest,
                curAddr = 0\<rparr>"
  have cr: "createMetaDataBlock a bTreeBlockId = Inr a'"
    unfolding a'_def using bl ok by (rule createMetaDataBlock_fresh)
  define R :: "u8 list" where "R = replicate (2048 - length (metaBytes a bTreeBlockId)) 0"
  have mb: "bytes (blocks a' ! 1) = metaBytes a bTreeBlockId @ R"
    using length_metaBytes[OF ok, of bTreeBlockId] by (simp add: a'_def bytes_page R_def)
  have ent: "rd32 (drop (8 + 4 * i) (bytes (blocks a' ! 1)))
             = rd32 (tableEntry a i @ X)" if "i < 256" for i X
  proof -
    from table_drop[OF ok that, of bTreeBlockId R] obtain Y where
      Y: "drop (8 + 4 * i) (metaBytes a bTreeBlockId @ R) = tableEntry a i @ Y" by blast
    have l: "length (tableEntry a i) = 4" using ok that by (simp add: length_tableEntry)
    show ?thesis
      unfolding mb Y by (simp only: rd32_prefix[OF l])
  qed
  have unused: "rd32 (drop (8 + 4 * i) (bytes (blocks a' ! 1))) = 0"
    if "len - 1 \<le> i" "i < 256" for i
  proof -
    have "tableEntry a i = be32 0" using that by (simp add: tableEntry_def len_def)
    then show ?thesis using ent[OF that(2), of "[]"] by simp
  qed
  have used: "(let e = rd32 (drop (8 + 4 * i) (bytes (blocks a' ! 1)))
               in (e AND NOT 0x1f, 2 ^ unat (e AND 0x1f))) = tl (layout a) ! i"
    if "i < len - 1" for i
  proof -
    from blk[OF that] obtain k where k: "k < 32" "length (bytes (blocks a ! (i + 1))) = 2 ^ k"
      "bsize (blocks a ! (i + 1)) = 2 ^ k" "addr (blocks a ! (i + 1)) AND 0x1f = 0" by blast
    have i256: "i < 256" using that len2 by simp
    have te: "tableEntry a i = be32 (addr (blocks a ! (i + 1)) OR word_of_nat k)"
      using that k(3) by (simp add: tableEntry_def len_def getLog2_pow2[OF k(1)])
    have e: "rd32 (drop (8 + 4 * i) (bytes (blocks a' ! 1)))
             = addr (blocks a ! (i + 1)) OR word_of_nat k"
      using ent[OF i256, of "[]"] by (simp add: te)
    have uk: "unat (word_of_nat k :: u32) = k"
      by (rule unat_of_nat_small) (use k(1) in simp)
    show ?thesis
      unfolding e Let_def decode_entry[OF k(4) k(1)] uk
      using layout_tl_nth[of i a] that k(2) by (simp add: len_def)
  qed
  have cnt: "unat (rd32 (bytes (blocks a' ! 1))) = len - 1"
  proof -
    have "(word_of_int (int len - 1) :: u32) = word_of_nat (len - 1)"
      using len2 by simp
    moreover have "unat (word_of_nat (len - 1) :: u32) = len - 1"
      by (rule unat_of_nat_small) (use len2 in simp)
    moreover have "rd32 (bytes (blocks a' ! 1)) = word_of_int (int len - 1)"
      unfolding mb by (simp add: metaBytes_def len_def)
    ultimately show ?thesis by simp
  qed
  have dec: "decodeTable (bytes (blocks a' ! 1)) = tl (layout a)"
  proof (rule nth_equalityI)
    show "length (decodeTable (bytes (blocks a' ! 1))) = length (tl (layout a))"
      using len2 cnt by (simp add: decodeTable_def layout_def len_def)
  next
    fix i
    assume "i < length (decodeTable (bytes (blocks a' ! 1)))"
    then have i: "i < len - 1" using len2 cnt by (simp add: decodeTable_def)
    then have "decodeTable (bytes (blocks a' ! 1)) ! i
        = (let e = rd32 (drop (8 + 4 * i) (bytes (blocks a' ! 1)))
           in (e AND NOT 0x1f, 2 ^ unat (e AND 0x1f)))"
      using len2 cnt by (simp add: decodeTable_def)
    then show "decodeTable (bytes (blocks a' ! 1)) ! i = tl (layout a) ! i"
      using used[OF i] by simp
  qed
  have lay: "layout a' = layout a"
  proof -
    have "addr (newBlock c sz) = c" "length (bytes (newBlock c sz)) = unat sz" for c sz
      by (simp_all add: newBlock_def)
    then show ?thesis by (simp add: layout_def a'_def bl)
  qed
  show ?thesis
    using cr dec lay unused by (auto simp: len_def)
qed

lemma finishedLeaf_as_update:
  "finishedLeaf pre cnt
   = (newBlock 2080 2048)\<lparr>bytes := patch (patch (replicate 2048 0) 0 pre) 4 (be32 cnt),
                            curOffset := 8\<rparr>"
  by (simp add: finishedLeaf_def newBlock_def)

lemma page_as_update:
  "putAt (newBlock a sz) pre
   = (newBlock a sz)\<lparr>bytes := patch (replicate (unat sz) 0) 0 pre,
                       curOffset := word_of_nat (length pre)\<rparr>"
  by (simp add: putAt_def newBlock_def)

lemma reachable_finishedTree: "reachable (buddy (finishedTree pre cnt post cnt'))"
proof -
  define a1 where "a1 = snd (allocateBlock newBuddyAllocator 2048)"
  have r1: "reachable a1" unfolding a1_def by (intro reachable.intros)
  have a1: "a1 = \<lparr>blocks = [newBlock 0 32, newBlock 32 2048, newBlock 2080 2048], curAddr = 4128\<rparr>"
    by (simp add: a1_def allocateBlock_def Let_def newBuddyAllocator_eq powerOf2Ceil_2048)
  have g1: "getBlock a1 1 = Inr (newBlock 2080 2048)"
    by (simp add: a1 getBlock_def blockIndex_def)
  define a2 where "a2 = setBlock a1 1 (finishedLeaf pre cnt)"
  have r2: "reachable a2"
    unfolding a2_def finishedLeaf_as_update
    by (rule reachable.r_write[OF r1 g1]) (simp add: newBlock_def)
  have a2: "a2 = \<lparr>blocks = [newBlock 0 32, newBlock 32 2048, finishedLeaf pre cnt], curAddr = 4128\<rparr>"
    by (simp add: a2_def a1 setBlock_def blockIndex_def)
  define a3 where "a3 = snd (allocateBlock a2 20)"
  have r3: "reachable a3" unfolding a3_def using r2 by (rule reachable.r_alloc)
  have a3: "a3 = \<lparr>blocks = [newBlock 0 32, newBlock 32 2048, finishedLeaf pre cnt,
                           newBlock 4128 32], curAddr = 4160\<rparr>"
    by (simp add: a3_def a2 allocateBlock_def Let_def powerOf2Ceil_20)
  have g3: "getBlock a3 2 = Inr (newBlock 4128 32)"
    by (simp add: a3 getBlock_def blockIndex_def)
  define a4 where "a4 = setBlock a3 2 (putAt (newBlock 4128 32) (masterBytes cnt @ post))"
  have r4: "reachable a4"
    unfolding a4_def page_as_update
    by (rule reachable.r_write[OF r3 g3]) (simp add: newBlock_def)
  have "a4 = buddy (finishedTree pre cnt post cnt')"
    by (simp add: a4_def a3 setBlock_def blockIndex_def finishedTree_def pageTree_def)
  with r4 show ?thesis by simp
qed

lemma blocks_finishedTree:
  "blocks (buddy (finishedTree pre cnt post cnt'))
   = [newBlock 0 32, newBlock 32 2048, finishedLeaf pre cnt,
      putAt (newBlock 4128 32) (masterBytes cnt @ post)]"
  "curAddr (buddy (finishedTree pre cnt post cnt')) = 4160"
  by (simp_all add: finishedTree_def pageTree_def)

lemma shape_finishedLeaf [simp]:
  "addr (finishedLeaf pre cnt) = 2080" "length (bytes (finishedLeaf pre cnt)) = 2048"
  "bsize (finishedLeaf pre cnt) = 2048"
  by (simp_all add: finishedLeaf_def bsize_def)

lemma tableOK_finishedTree: "tableOK (buddy (finishedTree pre cnt post cnt')) j"
proof -
  consider "j = 0" | "j = 1" | "j = 2" | "3 \<le> j" by linarith
  then show ?thesis
  proof cases
    case 1
    then show ?thesis by (simp add: tableOK_def blocks_finishedTree newBlock_def bsize_def)
  next
    case 2
    then show ?thesis by (simp add: tableOK_def blocks_finishedTree)
  next
    case 3
    then show ?thesis by (simp add: tableOK_def blocks_finishedTree)
  next
    case 4
    then show ?thesis by (simp add: tableOK_def blocks_finishedTree)
  qed
qed

lemma createMetaDataBlock_finishedTree:
  "createMetaDataBlock (buddy (finishedTree pre cnt post cnt')) bTreeBlockId
   = Inr \<lparr>blocks = [putAt (newBlock 0 32) headerBytes,
                    putAt (newBlock 32 2048)
                      (metaBytes (buddy (finishedTree pre cnt post cnt')) bTreeBlockId),
                    finishedLeaf pre cnt,
                    putAt (newBlock 4128 32) (masterBytes cnt @ post)],
          curAddr = 0\<rparr>"
  by (rule createMetaDataBlock_fresh) (simp_all add: blocks_finishedTree tableOK_finishedTree)

lemma layout_finishedTree:
  "layout (buddy (finishedTree pre cnt post cnt'))
   = [(0, 32), (32, 2048), (2080, 2048), (4128, 32)]"
  by (simp add: layout_def blocks_finishedTree) (simp add: newBlock_def)

lemma hyps_finishedTree:
  "blocks (buddy (finishedTree pre cnt post cnt')) ! 1 = newBlock 32 2048"
  "length (blocks (buddy (finishedTree pre cnt post cnt'))) \<le> 257"
  "\<forall>b\<in>set (tl (blocks (buddy (finishedTree pre cnt post cnt')))).
      addr b AND 0x1f = 0 \<and> bytes b \<noteq> []"
proof -
  show "blocks (buddy (finishedTree pre cnt post cnt')) ! 1 = newBlock 32 2048"
    by (simp add: blocks_finishedTree)
  show "length (blocks (buddy (finishedTree pre cnt post cnt'))) \<le> 257"
    by (simp add: blocks_finishedTree)
  have n: "bytes b \<noteq> []" if "length (bytes b) = n" "0 < n" for b :: Block and n
    using that by auto
  show "\<forall>b\<in>set (tl (blocks (buddy (finishedTree pre cnt post cnt')))).
      addr b AND 0x1f = 0 \<and> bytes b \<noteq> []"
    by (simp add: blocks_finishedTree n[of _ 2048] n[of _ 32]) (simp add: newBlock_def)
qed


subsection \<open>The header block\<close>

lemma bind_InrE:
  assumes "bind m f = Inr y"
  obtains x where "m = Inr x" and "f x = Inr y"
  using assms by (cases m) (auto simp: bind_def)


lemma store_length: "store d i v = Inr d' \<Longrightarrow> length d' = length d"
  by (auto simp: store_def split: if_splits)

lemma storeLoop_length: "storeLoop d off i bs = Inr d' \<Longrightarrow> length d' = length d"
proof (induction bs arbitrary: d i)
  case Nil
  then show ?case by simp
next
  case (Cons b bs)
  from Cons.prems obtain d1 where "store d (off + i) b = Inr d1"
    and "storeLoop d1 off (i + 1) bs = Inr d'"
    by (auto elim!: bind_InrE)
  then show ?case using Cons.IH[of d1 "i + 1"] store_length[of d "off + i" b d1] by simp
qed

lemma writeInt8_shaped: "shaped A L b \<Longrightarrow> writeInt8 b v = Inr b' \<Longrightarrow> shaped A L b'"
  unfolding writeInt8_def shaped_def
  by (auto elim!: bind_InrE dest!: store_length)

lemma writeInt32_shaped: "shaped A L b \<Longrightarrow> writeInt32 b v = Inr b' \<Longrightarrow> shaped A L b'"
  unfolding writeInt32_def shaped_def
  by (auto elim!: bind_InrE dest!: store_length)

lemma writeStr_shaped: "shaped A L b \<Longrightarrow> writeStr b s = Inr b' \<Longrightarrow> shaped A L b'"
  unfolding writeStr_def shaped_def Let_def
  by (auto elim!: bind_InrE dest!: storeLoop_length)

lemma tableStep_shaped: "shaped A L b \<Longrightarrow> tableStep a i b = Inr b' \<Longrightarrow> shaped A L b'"
  unfolding tableStep_def Let_def
  by (auto elim!: bind_InrE split: if_splits intro: writeInt32_shaped)

lemma freeListStep_shaped:
  "shaped A L (fst s) \<Longrightarrow> freeListStep i s = Inr s' \<Longrightarrow> shaped A L (fst s')"
  unfolding freeListStep_def Let_def
  by (cases s) (auto elim!: bind_InrE split: if_splits intro: writeInt32_shaped)

lemma forLoop_inv:
  assumes "\<And>i s s'. I s \<Longrightarrow> body i s = Inr s' \<Longrightarrow> I s'"
    and "I s" and "forLoop js body s = Inr s'"
  shows "I s'"
  using assms(2,3)
proof (induction js arbitrary: s)
  case Nil
  then show ?case by simp
next
  case (Cons j js)
  from Cons.prems(2) obtain s1 where "body j s = Inr s1" and "forLoop js body s1 = Inr s'"
    by (auto elim!: bind_InrE)
  then show ?case using Cons.IH[of s1] assms(1)[OF Cons.prems(1)] by blast
qed

lemma createMetaDataBlock_header:
  assumes "reachable a" and "createMetaDataBlock a bTreeBlockId = Inr a'"
  shows "\<exists>metaData. blocks a' = (blocks a)[1 := metaData, 0 := putAt (newBlock 0 32) headerBytes]
           \<and> shaped 32 2048 metaData"
proof -
  note inv = reachable_inv[OF assms(1)]
  have l: "1 < length (blocks a)" using inv by simp
  have s0: "shaped 32 2048 (blocks a ! 1)" using inv by (simp add: shaped_def)
  have h0: "blocks a ! 0 = putAt (newBlock 0 32) []" using inv by (simp add: putAt_Nil)
  from assms(2) l obtain m1 m2 m3 m4 m5 m6 m7 m8 c' h1 h2 h3 h4 where
    w1: "writeInt32 (blocks a ! 1) (word_of_int (int (length (blocks a)) - 1)) = Inr m1"
    and w2: "writeInt32 m1 0 = Inr m2"
    and w3: "forLoop [0..<256] (tableStep a) m2 = Inr m3"
    and w4: "writeInt32 m3 1 = Inr m4"
    and w5: "writeInt8 m4 4 = Inr m5"
    and w6: "writeStr m5 ''DSDB'' = Inr m6"
    and w7: "writeInt32 m6 bTreeBlockId = Inr m7"
    and w8: "forLoop [0..<32] freeListStep (m7, curAddr a) = Inr (m8, c')"
    and g1: "writeStr (blocks a ! 0) ''Bud1'' = Inr h1"
    and g2: "writeInt32 h1 (getAddr m8) = Inr h2"
    and g3: "writeInt32 h2 (bsize m8) = Inr h3"
    and g4: "writeInt32 h3 (getAddr m8) = Inr h4"
    and res: "a' = \<lparr>blocks = (blocks a)[1 := m8, 0 := h4], curAddr = c'\<rparr>"
    unfolding createMetaDataBlock_def Let_def
    by (auto elim!: bind_InrE split: if_splits prod.splits)
  have s1: "shaped 32 2048 m1" using s0 w1 by (rule writeInt32_shaped)
  have s2: "shaped 32 2048 m2" using s1 w2 by (rule writeInt32_shaped)
  have s3: "shaped 32 2048 m3"
    by (rule forLoop_inv[where I="shaped 32 2048", OF _ s2 w3]) (rule tableStep_shaped)
  have s4: "shaped 32 2048 m4" using s3 w4 by (rule writeInt32_shaped)
  have s5: "shaped 32 2048 m5" using s4 w5 by (rule writeInt8_shaped)
  have s6: "shaped 32 2048 m6" using s5 w6 by (rule writeStr_shaped)
  have s7: "shaped 32 2048 m7" using s6 w7 by (rule writeInt32_shaped)
  have "shaped 32 2048 (fst (m8, c'))"
    by (rule forLoop_inv[where I="\<lambda>s. shaped 32 2048 (fst s)", OF _ _ w8])
       (erule freeListStep_shaped, assumption, simp add: s7)
  then have s8: "shaped 32 2048 m8" by simp
  then have ga: "getAddr m8 = 32" and bs: "bsize m8 = 2048"
    by (simp_all add: shaped_def getAddr_def bsize_def)
  have e1: "h1 = putAt (newBlock 0 32) (map of_char ''Bud1'')"
    using g1 writeStr_page[of "[]" "''Bud1''" 32 0] by (simp add: h0)
  have e2: "h2 = putAt (newBlock 0 32) (map of_char ''Bud1'' @ be32 32)"
    using g2 writeInt32_page[of "map of_char ''Bud1''" 32 0 32] by (simp add: e1 ga)
  have e3: "h3 = putAt (newBlock 0 32) ((map of_char ''Bud1'' @ be32 32) @ be32 2048)"
    using g3 writeInt32_page[of "map of_char ''Bud1'' @ be32 32" 32 0 2048] by (simp add: e2 bs)
  have e4: "h4 = putAt (newBlock 0 32) (((map of_char ''Bud1'' @ be32 32) @ be32 2048) @ be32 32)"
    using g4 writeInt32_page[of "(map of_char ''Bud1'' @ be32 32) @ be32 2048" 32 0 32]
    by (simp add: e3 ga)
  have "h4 = putAt (newBlock 0 32) headerBytes" by (simp add: e4 headerBytes_def)
  then show ?thesis using res s8 by auto
qed

lemma be32_1: "be32 1 = [0, 0, 0, 1]"
  by (simp add: be32_def)


section \<open>The example run of main\<close>

text \<open>
  Decoding the entries of a leaf page gives back the add calls that wrote them; the run of
  \<^verbatim>\<open>main\<close> on the example arguments is evaluated call by call.
\<close>


lemma rd16_be16_only [simp]: "rd16 (be16 v) = v"
  using rd16_be16[of v "[]"] by simp

lemma rd16s_be16: "rd16s (be16 v @ xs) = v # rd16s xs"
proof -
  obtain a b where ab: "be16 v = [a, b]" by (simp add: be16_def)
  have "rd16 [a, b] = v" using rd16_be16_only[of v] by (simp add: ab)
  then show ?thesis by (simp add: ab)
qed

lemma rd16s_chars: "rd16s (concat (map (\<lambda>c. be16 (f c)) s)) = map f s"
  by (induction s) (simp_all add: rd16s_be16)

lemma decodeEntry_parts:
  assumes n: "length name < 2 ^ 32" and t: "length rtype = 4" and g: "length tag = 4"
  shows "decodeEntry (encodeName name @ map of_char rtype @ tag @ P)
         = (if tag = map of_char ''blob'' then
              (let len = unat (rd32 P) in
               if length P < 4 + len then None
               else Some ((map char16 name, map of_char rtype, Blob (take len (drop 4 P))),
                          drop (4 + len) P))
            else if tag = map of_char ''bool'' then
              (case P of [] \<Rightarrow> None
               | v # rest \<Rightarrow> Some ((map char16 name, map of_char rtype, Bool v), rest))
            else if tag = map of_char ''shor'' then
              (if length P < 4 then None
               else Some ((map char16 name, map of_char rtype, Short (rd32 P)), drop 4 P))
            else None)"
proof -
  define chars where "chars = concat (map (\<lambda>c. be16 (char16 c)) name)"
  define T :: "u8 list" where "T = map of_char rtype"
  define bs where "bs = encodeName name @ T @ tag @ P"
  have lc: "length chars = 2 * length name" by (simp add: chars_def length_chars16)
  have lT: "length T = 4" by (simp add: T_def t)
  have bs: "bs = be32 (word_of_nat (length name)) @ chars @ T @ tag @ P"
    by (simp add: bs_def encodeName_def chars_def)
  have un: "unat (rd32 bs) = length name"
    unfolding bs using n by (simp add: unat_of_nat_small)
  have ok: "\<not> length bs < 4 + 2 * length name + 8" by (simp add: bs lc lT g)
  have nm: "rd16s (take (2 * length name) (drop 4 bs)) = map char16 name"
    unfolding bs by (simp add: lc) (simp add: chars_def rd16s_chars)
  have rest: "drop (4 + 2 * length name) bs = T @ tag @ P"
    unfolding bs by (simp add: lc)
  have r1: "take 4 (T @ tag @ P) = T" by (simp add: lT)
  have r2: "take 4 (drop 4 (T @ tag @ P)) = tag" by (simp add: lT g)
  have r3: "drop 8 (T @ tag @ P) = P" by (simp add: lT g)
  show ?thesis
    unfolding decodeEntry_def bs_def[symmetric] T_def[symmetric]
    by (simp only: un ok nm rest r1 r2 r3 Let_def if_False)
qed

lemma tags_distinct:
  "(map of_char ''bool'' :: u8 list) \<noteq> map of_char ''blob''"
  "(map of_char ''shor'' :: u8 list) \<noteq> map of_char ''blob''"
  "(map of_char ''shor'' :: u8 list) \<noteq> map of_char ''bool''"
  by simp_all

lemma decodeEntry_encodeEntry:
  assumes "length (encodeEntry c) < 2 ^ 32"
    and "length (fst (snd (entryOf c))) = 4"
  shows "decodeEntry (encodeEntry c @ R) = Some (entryOf c, R)"
proof (cases c)
  case (AddBlob fileName recordType data)
  have n: "length fileName < 2 ^ 32" and t: "length recordType = 4" and d: "length data < 2 ^ 32"
    using assms by (simp_all add: AddBlob length_encodeName)
  have "decodeEntry (encodeName fileName @ map of_char recordType @ map of_char ''blob''
          @ (be32 (word_of_nat (length data)) @ data @ R))
        = Some ((map char16 fileName, map of_char recordType, Blob data), R)"
    by (subst decodeEntry_parts[OF n t]) (simp_all add: Let_def unat_of_nat_small[OF d])
  then show ?thesis by (simp add: AddBlob)
next
  case (AddBool fileName recordType v)
  have n: "length fileName < 2 ^ 32" and t: "length recordType = 4"
    using assms by (simp_all add: AddBool length_encodeName)
  have "decodeEntry (encodeName fileName @ map of_char recordType @ map of_char ''bool''
          @ (v # R))
        = Some ((map char16 fileName, map of_char recordType, Bool v), R)"
    by (subst decodeEntry_parts[OF n t]) (simp_all add: tags_distinct)
  then show ?thesis by (simp add: AddBool)
next
  case (AddShort fileName recordType v)
  have n: "length fileName < 2 ^ 32" and t: "length recordType = 4"
    using assms by (simp_all add: AddShort length_encodeName)
  have "decodeEntry (encodeName fileName @ map of_char recordType @ map of_char ''shor''
          @ (be32 (ucast v) @ R))
        = Some ((map char16 fileName, map of_char recordType, Short (ucast v)), R)"
    by (subst decodeEntry_parts[OF n t]) (simp_all add: tags_distinct)
  then show ?thesis by (simp add: AddShort)
qed

lemma decodeEntries_encode:
  assumes "\<forall>c\<in>set cs. length (encodeEntry c) < 2 ^ 32 \<and> length (fst (snd (entryOf c))) = 4"
  shows "decodeEntries (length cs) (concat (map encodeEntry cs) @ R) = Some (map entryOf cs)"
  using assms
proof (induction cs)
  case Nil
  then show ?case by simp
next
  case (Cons c cs)
  have "decodeEntry (encodeEntry c @ (concat (map encodeEntry cs) @ R))
        = Some (entryOf c, concat (map encodeEntry cs) @ R)"
    by (rule decodeEntry_encodeEntry) (use Cons.prems in simp_all)
  then show ?case using Cons by simp
qed


lemma getInt_600: "getInt ''600'' = Inr 600"
  by (simp add: getInt_def strtol_def isspace_def isdigit_def digitsValue_def Let_def)

lemma getInt_400: "getInt ''400'' = Inr 400"
  by (simp add: getInt_def strtol_def isspace_def isdigit_def digitsValue_def Let_def)

lemma getInt_128: "getInt ''128'' = Inr 128"
  by (simp add: getInt_def strtol_def isspace_def isdigit_def digitsValue_def Let_def)

lemma getInt_16: "getInt ''16'' = Inr 16"
  by (simp add: getInt_def strtol_def isspace_def isdigit_def digitsValue_def Let_def)

lemma getInt_100: "getInt ''100'' = Inr 100"
  by (simp add: getInt_def strtol_def isspace_def isdigit_def digitsValue_def Let_def)

lemma fits_newRecord: "n \<le> unat sz \<Longrightarrow> fits (newRecord sz) n"
  by (simp add: fits_def newRecord_def) (use unat_lt32[of sz] in simp)


lemma iloc_record:
  "bind (writeInt32 (newRecord 16) centerX) (\<lambda>r.
   bind (writeInt32 r centerY) (\<lambda>r.
   bind (writeInt16 r 0xffff) (\<lambda>r.
   bind (writeInt16 r 0xffff) (\<lambda>r.
   bind (writeInt16 r 0xffff) (\<lambda>r. f (bytes r))))))
   = f (ilocBytes centerX centerY)"
proof -
  define r0 :: Record where "r0 = newRecord 16"
  have f0: "fits r0 16" unfolding r0_def by (rule fits_newRecord) simp
  have f4: "fits r0 4" using f0 by (rule fits_mono) simp
  have w1: "writeInt32 r0 centerX = Inr (putAt r0 (be32 centerX))" by (rule writeInt32_putAt[OF f4])
  have f1: "fits (putAt r0 (be32 centerX)) 4" by (rule fits_putAt) (use f0 in \<open>rule fits_mono, simp\<close>)
  have p2: "putAt (putAt r0 (be32 centerX)) (be32 centerY) = putAt r0 (be32 centerX @ be32 centerY)"
    by (rule putAt_putAt) (use f0 in \<open>rule fits_mono, simp\<close>)
  have w2: "writeInt32 (putAt r0 (be32 centerX)) centerY = Inr (putAt r0 (be32 centerX @ be32 centerY))"
    by (simp add: writeInt32_putAt[OF f1] p2)
  define q1 where "q1 = be32 centerX @ be32 centerY"
  have f2: "fits (putAt r0 q1) 2" by (rule fits_putAt) (use f0 in \<open>rule fits_mono, simp add: q1_def\<close>)
  have p3: "putAt (putAt r0 q1) (be16 0xffff) = putAt r0 (q1 @ be16 0xffff)"
    by (rule putAt_putAt) (use f0 in \<open>rule fits_mono, simp add: q1_def\<close>)
  have w3: "writeInt16 (putAt r0 q1) 0xffff = Inr (putAt r0 (q1 @ be16 0xffff))"
    by (simp add: writeInt16_putAt[OF f2] p3)
  define q2 where "q2 = q1 @ be16 0xffff"
  have f3: "fits (putAt r0 q2) 2"
    by (rule fits_putAt) (use f0 in \<open>rule fits_mono, simp add: q1_def q2_def\<close>)
  have p4: "putAt (putAt r0 q2) (be16 0xffff) = putAt r0 (q2 @ be16 0xffff)"
    by (rule putAt_putAt) (use f0 in \<open>rule fits_mono, simp add: q1_def q2_def\<close>)
  have w4: "writeInt16 (putAt r0 q2) 0xffff = Inr (putAt r0 (q2 @ be16 0xffff))"
    by (simp add: writeInt16_putAt[OF f3] p4)
  define q3 where "q3 = q2 @ be16 0xffff"
  have f5: "fits (putAt r0 q3) 2"
    by (rule fits_putAt) (use f0 in \<open>rule fits_mono, simp add: q1_def q2_def q3_def\<close>)
  have p5: "putAt (putAt r0 q3) (be16 0xffff) = putAt r0 (q3 @ be16 0xffff)"
    by (rule putAt_putAt) (use f0 in \<open>rule fits_mono, simp add: q1_def q2_def q3_def\<close>)
  have w5: "writeInt16 (putAt r0 q3) 0xffff = Inr (putAt r0 (q3 @ be16 0xffff))"
    by (simp add: writeInt16_putAt[OF f5] p5)
  have r2: "replicate 2 (0 :: u8) = [0, 0]" by (simp add: numeral_eq_Suc)
  have b: "bytes (putAt r0 (q3 @ be16 0xffff)) = ilocBytes centerX centerY"
    by (simp add: putAt_def r0_def newRecord_def patch_replicate0 q1_def q2_def q3_def
        ilocBytes_def r2)
  show ?thesis
    unfolding r0_def[symmetric]
    by (simp add: w1 w2[unfolded q1_def[symmetric]] w3[unfolded q2_def[symmetric]]
        w4[unfolded q3_def[symmetric]] w5 q1_def[symmetric] q2_def[symmetric] q3_def[symmetric] b)
qed


lemma createAliasFile_length:
  assumes "length volumeName + length fileName < 2 ^ 31"
  shows "\<exists>r. createAliasFile volumeName fileName = Inr r
           \<and> length r = 158 + fullPath volumeName fileName"
  using createAliasFile_eq[OF assms] by (simp add: Let_def fullPath_def)

lemma fullPath_le: "fullPath v f \<le> length v + length f + 2"
  by (simp add: fullPath_def Let_def)

lemma addBlob_leafTree:
  assumes "length pre + length (encodeEntry (AddBlob n t d)) \<le> 2048"
  shows "addBlob (leafTree pre cnt) n t d
         = Inr (leafTree (pre @ encodeEntry (AddBlob n t d)) (cnt + 1))"
  using applyCall_leafTree[OF assms, of cnt] by simp

lemma addBool_leafTree:
  assumes "length pre + length (encodeEntry (AddBool n t v)) \<le> 2048"
  shows "addBool (leafTree pre cnt) n t v
         = Inr (leafTree (pre @ encodeEntry (AddBool n t v)) (cnt + 1))"
  using applyCall_leafTree[OF assms, of cnt] by simp

lemma addShort_leafTree:
  assumes "length pre + length (encodeEntry (AddShort n t v)) \<le> 2048"
  shows "addShort (leafTree pre cnt) n t v
         = Inr (leafTree (pre @ encodeEntry (AddShort n t v)) (cnt + 1))"
  using applyCall_leafTree[OF assms, of cnt] by simp

lemma length_ilocBytes [simp]: "length (ilocBytes x y) = 16"
  by (simp add: ilocBytes_def)

lemma length_exampleCalls:
  "length (concat (map encodeEntry (exampleCalls aliasFile))) = 207 + length aliasFile"
  by (simp add: exampleCalls_def length_encodeName)

lemma mainBuddy_example:
  assumes "length bg \<le> 1670"
  shows "\<exists>aliasFile. createAliasFile ''Vol'' bg = Inr aliasFile
     \<and> length aliasFile \<le> 1833
     \<and> mainBuddy [prog, out, bg, ''600'', ''400'', ''Vol'', ''128'', ''16'',
                   ''icon.png'', ''100'', ''100'']
       = createMetaDataBlock
           (buddy (finishedTree (be32 0 @ be32 0 @ concat (map encodeEntry (exampleCalls aliasFile)))
                     7 [] 7)) 2"
proof -
  have "length ''Vol'' + length bg < 2 ^ 31" using assms by simp
  from createAliasFile_length[OF this] obtain aliasFile where
    al: "createAliasFile ''Vol'' bg = Inr aliasFile"
    and ll: "length aliasFile = 158 + fullPath ''Vol'' bg" by blast
  have la: "length aliasFile \<le> 1833" using ll fullPath_le[of "''Vol''" bg] assms by simp
  define c1 where "c1 = AddBlob ''.'' ''BKGD''
        (map of_char ''PctB'' @ be32 (word_of_nat (length aliasFile)) @ replicate 4 0)"
  define c2 where "c2 = AddBool ''.'' ''ICVO'' 1"
  define c3 where "c3 = AddBlob ''.'' ''fwi0''
        (be16 200 @ be16 300 @ be16 600 @ be16 900 @ map of_char ''icnv'' @ replicate 4 0)"
  define c4 where "c4 = AddBlob ''.'' ''icvo''
        (map of_char ''icv4'' @ be16 128 @ map of_char ''none'' @ map of_char ''botm''
         @ replicate 12 0)"
  define c5 where "c5 = AddShort ''.'' ''icvt'' 16"
  define c6 where "c6 = AddBlob ''.'' ''pict'' aliasFile"
  define c7 where "c7 = AddBlob ''icon.png'' ''Iloc'' (ilocBytes 100 100)"
  define p0 where "p0 = be32 0 @ be32 0"
  define p1 where "p1 = p0 @ encodeEntry c1"
  define p2 where "p2 = p1 @ encodeEntry c2"
  define p3 where "p3 = p2 @ encodeEntry c3"
  define p4 where "p4 = p3 @ encodeEntry c4"
  define p5 where "p5 = p4 @ encodeEntry c5"
  define p6 where "p6 = p5 @ encodeEntry c6"
  define p7 where "p7 = p6 @ encodeEntry c7"
  have l0: "length p0 = 8" by (simp add: p0_def)
  have l1: "length p1 = 38" by (simp add: p1_def l0 c1_def length_encodeName)
  have l2: "length p2 = 53" by (simp add: p2_def l1 c2_def length_encodeName)
  have l3: "length p3 = 87" by (simp add: p3_def l2 c3_def length_encodeName)
  have l4: "length p4 = 131" by (simp add: p4_def l3 c4_def length_encodeName)
  have l5: "length p5 = 149" by (simp add: p5_def l4 c5_def length_encodeName)
  have l6: "length p6 = 167 + length aliasFile" by (simp add: p6_def l5 c6_def length_encodeName)
  have l7: "length p7 = 215 + length aliasFile" by (simp add: p7_def l6 c7_def length_encodeName)
  have s1: "addBlob (leafTree p0 0) ''.'' ''BKGD''
        (map of_char ''PctB'' @ be32 (word_of_nat (length aliasFile)) @ replicate 4 0)
        = Inr (leafTree p1 1)"
    unfolding p1_def c1_def
    using addBlob_leafTree[of p0 "''.''" "''BKGD''" _ 0] l0 by (simp add: length_encodeName)
  have s2: "addBool (leafTree p1 1) ''.'' ''ICVO'' 1 = Inr (leafTree p2 2)"
    unfolding p2_def c2_def
    using addBool_leafTree[of p1 "''.''" "''ICVO''" 1 1] l1 by (simp add: length_encodeName)
  have s3: "addBlob (leafTree p2 2) ''.'' ''fwi0''
        (be16 200 @ be16 300 @ be16 600 @ be16 900 @ map of_char ''icnv'' @ replicate 4 0)
        = Inr (leafTree p3 3)"
    unfolding p3_def c3_def
    using addBlob_leafTree[of p2 "''.''" "''fwi0''" _ 2] l2 by (simp add: length_encodeName)
  have s4: "addBlob (leafTree p3 3) ''.'' ''icvo''
        (map of_char ''icv4'' @ be16 128 @ map of_char ''none'' @ map of_char ''botm''
         @ replicate 12 0) = Inr (leafTree p4 4)"
    unfolding p4_def c4_def
    using addBlob_leafTree[of p3 "''.''" "''icvo''" _ 3] l3 by (simp add: length_encodeName)
  have s5: "addShort (leafTree p4 4) ''.'' ''icvt'' 16 = Inr (leafTree p5 5)"
    unfolding p5_def c5_def
    using addShort_leafTree[of p4 "''.''" "''icvt''" 16 4] l4 by (simp add: length_encodeName)
  have s6: "addBlob (leafTree p5 5) ''.'' ''pict'' aliasFile = Inr (leafTree p6 6)"
    unfolding p6_def c6_def
    using addBlob_leafTree[of p5 "''.''" "''pict''" aliasFile 5] l5 la
    by (simp add: length_encodeName)
  have s7: "addBlob (leafTree p6 6) ''icon.png'' ''Iloc'' (ilocBytes 100 100) = Inr (leafTree p7 7)"
    unfolding p7_def c7_def
    using addBlob_leafTree[of p6 "''icon.png''" "''Iloc''" "ilocBytes 100 100" 6] l6 la
    by (simp add: length_encodeName)
  have files: "addFiles (leafTree p6 6) [''icon.png'', ''100'', ''100''] = Inr (leafTree p7 7)"
    using iloc_record[of 100 100
        "\<lambda>d. bind (addBlob (leafTree p6 6) ''icon.png'' ''Iloc'' d) Inr"]
    by (simp add: getInt_100 s7)
  have fin: "finish (leafTree p7 7) = Inr (2, finishedTree p7 7 [] 7)"
    by (rule finish_leafTree) (use l7 la in simp_all)
  have p7: "p7 = be32 0 @ be32 0 @ concat (map encodeEntry (exampleCalls aliasFile))"
    by (simp add: p7_def p6_def p5_def p4_def p3_def p2_def p1_def p0_def exampleCalls_def
        c1_def c2_def c3_def c4_def c5_def c6_def c7_def)
  have w: "(ucast (200 + 400 :: u32) :: u16) = 600" "(ucast (300 + 600 :: u32) :: u16) = 900"
    "(ucast (128 :: u32) :: u16) = 128" "(ucast (16 :: u32) :: u16) = 16"
    by simp_all
  have run: "mainBuddy [prog, out, bg, ''600'', ''400'', ''Vol'', ''128'', ''16'',
                   ''icon.png'', ''100'', ''100'']
       = createMetaDataBlock (buddy (finishedTree p7 7 [] 7)) 2"
    unfolding mainBuddy_def
    using s1 s2 s3 s4 s5 s6 files fin
    by (simp add: Let_def al newBTree_new p0_def[symmetric] getInt_400 getInt_600 w
        getInt_128 getInt_16 del: addFiles.simps)
  show ?thesis using al la run by (simp add: p7)
qed


lemma drop8_finishedLeaf:
  assumes "length h = 8" and "length es \<le> 2040"
  shows "drop 8 (bytes (finishedLeaf (h @ es) cnt)) = es @ replicate (2040 - length es) 0"
proof -
  have a: "patch (replicate 2048 0) 0 (h @ es) = h @ es @ replicate (2040 - length es) 0"
    using assms by (simp add: patch_replicate0)
  have b: "patch (h @ es @ replicate (2040 - length es) 0) 4 (be32 cnt)
           = take 4 h @ be32 cnt @ drop 8 (h @ es @ replicate (2040 - length es) 0)"
    using assms by (simp add: patch_eq)
  show ?thesis using assms by (simp add: finishedLeaf_def a b)
qed

lemma decodeLeaf_finishedLeaf:
  assumes "length (concat (map encodeEntry cs)) \<le> 2040"
    and "\<forall>c\<in>set cs. length (fst (snd (entryOf c))) = 4"
  shows "decodeLeaf (bytes (finishedLeaf (be32 0 @ be32 0 @ concat (map encodeEntry cs))
                      (word_of_nat (length cs))))
         = Some (map entryOf cs)"
proof -
  define es where "es = concat (map encodeEntry cs)"
  have le: "length es \<le> 2040" using assms(1) by (simp add: es_def)
  have "length cs < 2 ^ 32" using length_entries_ge[of cs] assms(1) by simp
  then have un: "unat (word_of_nat (length cs) :: u32) = length cs" by (rule unat_of_nat_small)
  have cnt: "rd32 (drop 4 (bytes (finishedLeaf (be32 0 @ be32 0 @ es) (word_of_nat (length cs)))))
             = word_of_nat (length cs)"
    by (rule count_finishedLeaf) (use le in simp_all)
  have d: "drop 8 (bytes (finishedLeaf ((be32 0 @ be32 0) @ es) (word_of_nat (length cs))))
           = es @ replicate (2040 - length es) 0"
    by (rule drop8_finishedLeaf) (use le in simp_all)
  have each: "\<forall>c\<in>set cs. length (encodeEntry c) < 2 ^ 32 \<and> length (fst (snd (entryOf c))) = 4"
  proof
    fix c assume c: "c \<in> set cs"
    have "length (encodeEntry c) \<le> length es"
      unfolding es_def using c by (induction cs) auto
    then have "length (encodeEntry c) < 2 ^ 32" using le by simp
    then show "length (encodeEntry c) < 2 ^ 32 \<and> length (fst (snd (entryOf c))) = 4"
      using assms(2) c by simp
  qed
  show ?thesis
    unfolding decodeLeaf_def es_def[symmetric] cnt un
    using d decodeEntries_encode[OF each, of "replicate (2040 - length es) 0"]
    by (simp add: es_def)
qed

lemma getBlock_list:
  "getBlock \<lparr>blocks = [b0, b1, b2, b3], curAddr = c\<rparr> 1 = Inr b2"
  "getBlock \<lparr>blocks = [b0, b1, b2, b3], curAddr = c\<rparr> 2 = Inr b3"
  by (simp_all add: getBlock_def blockIndex_def)


section \<open>The outcome of an add call\<close>

subsection \<open>The errors of the writers\<close>

lemma writeChars16_err: "writeChars16 b s = Inl e \<Longrightarrow> e = BufferOverflow"
proof (induction s arbitrary: b)
  case Nil
  then show ?case by simp
next
  case (Cons c s)
  from Cons.prems show ?case
    by (auto elim!: bind_InlE dest: writeInt16_Inl Cons.IH)
qed

lemma onPage_outcome:
  assumes "curPageId t \<noteq> 0xffffffff"
    and "blockIndex (curPageId t) < length (blocks (buddy t))"
    and "\<And>b e. f b = Inl e \<Longrightarrow> e = BufferOverflow"
  shows "onPage t f = Inl BufferOverflow
       \<or> (\<exists>t'. onPage t f = Inr t' \<and> entryCount t' = entryCount t
              \<and> curPageId t' = curPageId t
              \<and> length (blocks (buddy t')) = length (blocks (buddy t)))"
proof -
  have g: "getBlock (buddy t) (curPageId t) = Inr (blocks (buddy t) ! blockIndex (curPageId t))"
    using assms(1,2) by (simp add: getBlock_def)
  show ?thesis
  proof (cases "f (blocks (buddy t) ! blockIndex (curPageId t))")
    case (Inl e)
    then have "e = BufferOverflow" by (rule assms(3))
    then show ?thesis using Inl g by (simp add: onPage_def)
  next
    case (Inr b')
    then show ?thesis using g by (simp add: onPage_def setBlock_def)
  qed
qed

lemma writeFileName_outcome:
  assumes "curPageId t \<noteq> 0xffffffff"
    and "blockIndex (curPageId t) < length (blocks (buddy t))"
  shows "writeFileName t s = Inl BufferOverflow
       \<or> (\<exists>t'. writeFileName t s = Inr t' \<and> entryCount t' = entryCount t
              \<and> curPageId t' = curPageId t
              \<and> length (blocks (buddy t')) = length (blocks (buddy t)))"
  unfolding writeFileName_def
  by (rule onPage_outcome[OF assms])
     (auto simp: Let_def elim!: bind_InlE dest: writeInt32_Inl writeChars16_err)

lemma add_outcome:
  assumes v1: "curPageId t \<noteq> 0xffffffff"
    and v2: "blockIndex (curPageId t) < length (blocks (buddy t))"
    and f: "\<And>b e. f b = Inl e \<Longrightarrow> e = BufferOverflow"
  shows "bind (writeFileName (t\<lparr>entryCount := entryCount t + 1\<rparr>) s) (\<lambda>t. onPage t f)
           = Inl BufferOverflow
       \<or> (\<exists>t'. bind (writeFileName (t\<lparr>entryCount := entryCount t + 1\<rparr>) s) (\<lambda>t. onPage t f)
                  = Inr t'
              \<and> entryCount t' = entryCount t + 1 \<and> curPageId t' = curPageId t)"
proof -
  define t1 where "t1 = t\<lparr>entryCount := entryCount t + 1\<rparr>"
  have w1: "curPageId t1 \<noteq> 0xffffffff" "blockIndex (curPageId t1) < length (blocks (buddy t1))"
    using v1 v2 by (simp_all add: t1_def)
  have e1: "entryCount t1 = entryCount t + 1" "curPageId t1 = curPageId t" by (simp_all add: t1_def)
  from writeFileName_outcome[OF w1, of s] show ?thesis
  proof
    assume "writeFileName t1 s = Inl BufferOverflow"
    then show ?thesis by (simp add: t1_def)
  next
    assume "\<exists>t'. writeFileName t1 s = Inr t' \<and> entryCount t' = entryCount t1
              \<and> curPageId t' = curPageId t1
              \<and> length (blocks (buddy t')) = length (blocks (buddy t1))"
    then obtain t2 where t2: "writeFileName t1 s = Inr t2" "entryCount t2 = entryCount t1"
      "curPageId t2 = curPageId t1" "length (blocks (buddy t2)) = length (blocks (buddy t1))"
      by blast
    have w2: "curPageId t2 \<noteq> 0xffffffff" "blockIndex (curPageId t2) < length (blocks (buddy t2))"
      using w1 t2 by simp_all
    have "onPage t2 f = Inl BufferOverflow
       \<or> (\<exists>t'. onPage t2 f = Inr t' \<and> entryCount t' = entryCount t2
              \<and> curPageId t' = curPageId t2
              \<and> length (blocks (buddy t')) = length (blocks (buddy t2)))"
      by (rule onPage_outcome[OF w2]) (rule f)
    with t2 e1 show ?thesis
      unfolding t1_def[symmetric] by auto
  qed
qed

lemma applyCall_outcome:
  assumes v1: "curPageId t \<noteq> 0xffffffff"
    and v2: "blockIndex (curPageId t) < length (blocks (buddy t))"
  shows "applyCall t c = Inl BufferOverflow
       \<or> (\<exists>t'. applyCall t c = Inr t' \<and> entryCount t' = entryCount t + 1
              \<and> curPageId t' = curPageId t)"
proof (cases c)
  case (AddBlob fileName recordType data)
  show ?thesis
    unfolding AddBlob applyCall.simps addBlob_def Let_def
    by (rule add_outcome[OF v1 v2])
       (auto elim!: bind_InlE dest: writeStr_Inl writeInt32_Inl writeData_Inl)
next
  case (AddBool fileName recordType v)
  show ?thesis
    unfolding AddBool applyCall.simps addBool_def Let_def
    by (rule add_outcome[OF v1 v2])
       (auto elim!: bind_InlE dest: writeStr_Inl writeInt8_Inl)
next
  case (AddShort fileName recordType v)
  show ?thesis
    unfolding AddShort applyCall.simps addShort_def Let_def
    by (rule add_outcome[OF v1 v2])
       (auto elim!: bind_InlE dest: writeStr_Inl writeInt32_Inl)
qed

lemma applyCall_finishedTree_outcome:
  "applyCall (finishedTree pre cnt post cnt') c = Inl BufferOverflow
   \<or> (\<exists>t'. applyCall (finishedTree pre cnt post cnt') c = Inr t'
          \<and> entryCount t' = cnt' + 1 \<and> curPageId t' = 2)"
  using applyCall_outcome[of "finishedTree pre cnt post cnt'" c]
  by (simp add: blocks_finishedTree blockIndex_def)

subsection \<open>Writes that do not fit the page\<close>

lemma store_over: "length d \<le> unat i \<Longrightarrow> store d i v = Inl BufferOverflow"
  by (simp add: store_def)

lemma page_cursor:
  "length pre \<le> unat sz \<Longrightarrow> unat (curOffset (putAt (newBlock a sz) pre)) = length pre"
proof -
  assume "length pre \<le> unat sz"
  then have "length pre < 2 ^ 32" using unat_lt32[of sz] by simp
  then show ?thesis by (simp add: putAt_def newBlock_def unat_of_nat_small)
qed

lemma page_cursor_add:
  assumes "length pre \<le> unat sz" and "unat sz + k < 2 ^ 32"
  shows "unat (curOffset (putAt (newBlock a sz) pre) + word_of_nat k) = length pre + k"
proof -
  have "unat (curOffset (putAt (newBlock a sz) pre)) + k < 2 ^ 32"
    using assms by (simp add: page_cursor)
  from unat_add_small[OF this] show ?thesis using assms(1) by (simp add: page_cursor)
qed

lemma writeInt8_page_if:
  assumes "length pre \<le> unat sz"
  shows "writeInt8 (putAt (newBlock a sz) pre) v
         = (if length pre + length [v] \<le> unat sz then Inr (putAt (newBlock a sz) (pre @ [v]))
            else Inl BufferOverflow)"
proof (cases "length pre + 1 \<le> unat sz")
  case True
  then show ?thesis by (simp add: writeInt8_page)
next
  case False
  then have "length (bytes (putAt (newBlock a sz) pre)) \<le> unat (curOffset (putAt (newBlock a sz) pre))"
    using assms by (simp add: page_cursor)
  then show ?thesis using False by (simp add: writeInt8_def store_over)
qed

lemma writeInt16_page_if:
  assumes "length pre \<le> unat sz" and "unat sz + 4 < 2 ^ 32"
  shows "writeInt16 (putAt (newBlock a sz) pre) v
         = (if length pre + length (be16 v) \<le> unat sz
            then Inr (putAt (newBlock a sz) (pre @ be16 v)) else Inl BufferOverflow)"
proof (cases "length pre + 2 \<le> unat sz")
  case True
  then show ?thesis by (simp add: writeInt16_page)
next
  case False
  have "unat (curOffset (putAt (newBlock a sz) pre) + 1) = length pre + 1"
    using page_cursor_add[OF assms(1), of 1 a] assms(2) by simp
  then have "length (bytes (putAt (newBlock a sz) pre))
             \<le> unat (curOffset (putAt (newBlock a sz) pre) + 1)"
    using False by simp
  then show ?thesis using False by (simp add: writeInt16_def store_over)
qed

lemma writeInt32_page_if:
  assumes "length pre \<le> unat sz" and "unat sz + 4 < 2 ^ 32"
  shows "writeInt32 (putAt (newBlock a sz) pre) v
         = (if length pre + length (be32 v) \<le> unat sz
            then Inr (putAt (newBlock a sz) (pre @ be32 v)) else Inl BufferOverflow)"
proof (cases "length pre + 4 \<le> unat sz")
  case True
  then show ?thesis by (simp add: writeInt32_page)
next
  case False
  have "unat (curOffset (putAt (newBlock a sz) pre) + 3) = length pre + 3"
    using page_cursor_add[OF assms(1), of 3 a] assms(2) by simp
  then have "length (bytes (putAt (newBlock a sz) pre))
             \<le> unat (curOffset (putAt (newBlock a sz) pre) + 3)"
    using False by simp
  then show ?thesis using False by (simp add: writeInt32_def store_over)
qed

lemma storeLoop_over:
  assumes "unat off + unat i \<le> length d" and "length d < 2 ^ 32"
    and "length d < unat off + unat i + length bs"
  shows "storeLoop d off i bs = Inl BufferOverflow"
  using assms
proof (induction bs arbitrary: d i)
  case Nil
  then show ?case by simp
next
  case (Cons b bs)
  have u: "unat (off + i) = unat off + unat i"
    using Cons.prems(1,2) by (simp add: unat_word_ariths)
  show ?case
  proof (cases "unat off + unat i < length d")
    case False
    then show ?thesis using u by (simp add: store_over)
  next
    case True
    have i1: "unat (i + 1) = unat i + 1"
      using True Cons.prems(2) by (simp add: unat_word_ariths)
    have s: "store d (off + i) b = Inr (d[unat (off + i) := b])"
      using True u by (simp add: store_def)
    have "storeLoop (d[unat (off + i) := b]) off (i + 1) bs = Inl BufferOverflow"
      by (rule Cons.IH) (use True Cons.prems i1 in simp_all)
    then show ?thesis by (simp add: s)
  qed
qed

lemma writeStr_page_if:
  assumes "length pre \<le> unat sz" and "length s < 2 ^ 32"
  shows "writeStr (putAt (newBlock a sz) pre) s
         = (if length pre + length (map of_char s :: u8 list) \<le> unat sz
            then Inr (putAt (newBlock a sz) (pre @ map of_char s)) else Inl BufferOverflow)"
proof (cases "length pre + length s \<le> unat sz")
  case True
  then show ?thesis by (simp add: writeStr_page)
next
  case False
  have u: "unat (word_of_nat (length s) :: u32) = length s"
    using assms(2) by (rule unat_of_nat_small)
  have "storeLoop (bytes (putAt (newBlock a sz) pre)) (curOffset (putAt (newBlock a sz) pre)) 0
          (map of_char s) = Inl BufferOverflow"
    by (rule storeLoop_over) (use False assms(1) unat_lt32[of sz] in \<open>simp_all add: page_cursor\<close>)
  then show ?thesis using False by (simp add: writeStr_def Let_def u)
qed

lemma writeData_page_if:
  assumes "length pre \<le> unat sz"
  shows "writeData (putAt (newBlock a sz) pre) d
         = (if length pre + length d \<le> unat sz
            then Inr (putAt (newBlock a sz) (pre @ d)) else Inl BufferOverflow)"
proof (cases "length pre + length d \<le> unat sz")
  case True
  then show ?thesis by (simp add: writeData_page)
next
  case False
  have "storeLoop (bytes (putAt (newBlock a sz) pre)) (curOffset (putAt (newBlock a sz) pre)) 0 d
        = Inl BufferOverflow"
    by (rule storeLoop_over) (use False assms(1) unat_lt32[of sz] in \<open>simp_all add: page_cursor\<close>)
  then show ?thesis using False by (simp add: writeData_def)
qed

text \<open>Two writers in a row.\<close>

lemma seq_page_if:
  assumes w1: "\<And>pre. length pre \<le> unat sz \<Longrightarrow>
      w1 (putAt (newBlock a sz) pre)
      = (if length pre + length e1 \<le> unat sz then Inr (putAt (newBlock a sz) (pre @ e1))
         else Inl BufferOverflow)"
    and w2: "\<And>pre. length pre \<le> unat sz \<Longrightarrow>
      w2 (putAt (newBlock a sz) pre)
      = (if length pre + length e2 \<le> unat sz then Inr (putAt (newBlock a sz) (pre @ e2))
         else Inl BufferOverflow)"
    and l: "length pre \<le> unat sz"
  shows "bind (w1 (putAt (newBlock a sz) pre)) w2
      = (if length pre + length (e1 @ e2) \<le> unat sz
         then Inr (putAt (newBlock a sz) (pre @ e1 @ e2)) else Inl BufferOverflow)"
proof (cases "length pre + length e1 \<le> unat sz")
  case True
  then have "length (pre @ e1) \<le> unat sz" by simp
  from w2[OF this] show ?thesis using True by (simp add: w1[OF l] add.assoc)
next
  case False
  then show ?thesis by (simp add: w1[OF l])
qed

lemma writeChars16_page_if:
  assumes "length pre \<le> unat sz" and "unat sz + 4 < 2 ^ 32"
  shows "writeChars16 (putAt (newBlock a sz) pre) s
         = (if length pre + length (concat (map (\<lambda>c. be16 (char16 c)) s)) \<le> unat sz
            then Inr (putAt (newBlock a sz) (pre @ concat (map (\<lambda>c. be16 (char16 c)) s)))
            else Inl BufferOverflow)"
  using assms(1)
proof (induction s arbitrary: pre)
  case Nil
  then show ?case by simp
next
  case (Cons c s)
  have "bind (writeInt16 (putAt (newBlock a sz) pre) (char16 c)) (\<lambda>b. writeChars16 b s)
      = (if length pre + length (be16 (char16 c) @ concat (map (\<lambda>c. be16 (char16 c)) s)) \<le> unat sz
         then Inr (putAt (newBlock a sz)
                    (pre @ be16 (char16 c) @ concat (map (\<lambda>c. be16 (char16 c)) s)))
         else Inl BufferOverflow)"
    by (rule seq_page_if[OF writeInt16_page_if[OF _ assms(2)] Cons.IH Cons.prems])
  then show ?case by simp
qed

lemma onPage_pageTree_Inl:
  assumes "1 \<le> length bs" and "length bs < 2 ^ 32"
    and "f (putAt (newBlock a sz) pre) = Inl e"
  shows "onPage (pageTree bs a sz pre ca cnt) f = Inl e"
  using assms(3) page_index[OF assms(1,2)]
  by (simp add: onPage_def pageTree_def getBlock_def)

lemma onPage_pageTree_if:
  assumes "1 \<le> length bs" and "length bs < 2 ^ 32"
    and "f (putAt (newBlock a sz) pre)
         = (if length pre + length enc \<le> unat sz then Inr (putAt (newBlock a sz) (pre @ enc))
            else Inl BufferOverflow)"
  shows "onPage (pageTree bs a sz pre ca cnt) f
         = (if length pre + length enc \<le> unat sz then Inr (pageTree bs a sz (pre @ enc) ca cnt)
            else Inl BufferOverflow)"
proof (cases "length pre + length enc \<le> unat sz")
  case True
  then show ?thesis using onPage_pageTree[OF assms(1,2), of f a sz pre "pre @ enc"] assms(3)
    by simp
next
  case False
  then show ?thesis using onPage_pageTree_Inl[OF assms(1,2), of f a sz pre BufferOverflow] assms(3)
    by simp
qed

lemma writeFileName_pageTree_if:
  assumes b1: "1 \<le> length bs" and b2: "length bs < 2 ^ 32"
    and l: "length pre \<le> unat sz" and sz: "unat sz + 4 < 2 ^ 32" and s: "length s < 2 ^ 32"
  shows "writeFileName (pageTree bs a sz pre ca cnt) s
         = (if length pre + length (encodeName s) \<le> unat sz
            then Inr (pageTree bs a sz (pre @ encodeName s) ca cnt) else Inl BufferOverflow)"
proof -
  have u: "unat (word_of_nat (length s) :: u32) = length s" using s by (rule unat_of_nat_small)
  have "bind (writeInt32 (putAt (newBlock a sz) pre) (word_of_nat (length s)))
          (\<lambda>b. writeChars16 b s)
      = (if length pre + length (be32 (word_of_nat (length s))
                                  @ concat (map (\<lambda>c. be16 (char16 c)) s)) \<le> unat sz
         then Inr (putAt (newBlock a sz)
                    (pre @ be32 (word_of_nat (length s)) @ concat (map (\<lambda>c. be16 (char16 c)) s)))
         else Inl BufferOverflow)"
    by (rule seq_page_if[OF writeInt32_page_if[OF _ sz] writeChars16_page_if[OF _ sz] l])
  then show ?thesis
    unfolding writeFileName_def
    by (intro onPage_pageTree_if[OF b1 b2]) (simp add: Let_def u encodeName_def)
qed

lemma add_pageTree_if:
  assumes b1: "1 \<le> length bs" and b2: "length bs < 2 ^ 32"
    and l: "length pre \<le> unat sz" and sz: "unat sz + 4 < 2 ^ 32" and s: "length s < 2 ^ 32"
    and f: "\<And>pre. length pre \<le> unat sz \<Longrightarrow>
      f (putAt (newBlock a sz) pre)
      = (if length pre + length enc \<le> unat sz then Inr (putAt (newBlock a sz) (pre @ enc))
         else Inl BufferOverflow)"
  shows "bind (writeFileName ((pageTree bs a sz pre ca cnt)\<lparr>entryCount := cnt + 1\<rparr>) s)
           (\<lambda>t. onPage t f)
         = (if length pre + length (encodeName s @ enc) \<le> unat sz
            then Inr (pageTree bs a sz (pre @ encodeName s @ enc) ca (cnt + 1))
            else Inl BufferOverflow)"
proof (cases "length pre + length (encodeName s) \<le> unat sz")
  case True
  then have l2: "length (pre @ encodeName s) \<le> unat sz" by simp
  have "onPage (pageTree bs a sz (pre @ encodeName s) ca (cnt + 1)) f
        = (if length (pre @ encodeName s) + length enc \<le> unat sz
           then Inr (pageTree bs a sz ((pre @ encodeName s) @ enc) ca (cnt + 1))
           else Inl BufferOverflow)"
    by (rule onPage_pageTree_if[OF b1 b2]) (rule f[OF l2])
  then show ?thesis
    using True by (simp add: entryCount_pageTree writeFileName_pageTree_if[OF b1 b2 l sz s] add.assoc)
next
  case False
  then show ?thesis
    by (simp add: entryCount_pageTree writeFileName_pageTree_if[OF b1 b2 l sz s])
qed

lemma applyCall_pageTree_if:
  assumes b1: "1 \<le> length bs" and b2: "length bs < 2 ^ 32"
    and l: "length pre \<le> unat sz" and sz: "unat sz + 4 < 2 ^ 32"
    and c: "length (encodeEntry c) < 2 ^ 32"
  shows "applyCall (pageTree bs a sz pre ca cnt) c
         = (if length pre + length (encodeEntry c) \<le> unat sz
            then Inr (pageTree bs a sz (pre @ encodeEntry c) ca (cnt + 1))
            else Inl BufferOverflow)"
proof (cases c)
  case (AddBlob fileName recordType data)
  have n: "length fileName < 2 ^ 32" and t: "length recordType < 2 ^ 32"
    using c by (simp_all add: AddBlob length_encodeName)
  have t4: "length ''blob'' < (2 :: nat) ^ 32" by simp
  have "bind (writeFileName ((pageTree bs a sz pre ca cnt)\<lparr>entryCount := cnt + 1\<rparr>) fileName)
           (\<lambda>t. onPage t (\<lambda>b.
              bind (writeStr b recordType) (\<lambda>b.
              bind (writeStr b ''blob'') (\<lambda>b.
              bind (writeInt32 b (word_of_nat (length data))) (\<lambda>b.
              writeData b data)))))
         = (if length pre + length (encodeName fileName @ map of_char recordType
                @ map of_char ''blob'' @ be32 (word_of_nat (length data)) @ data) \<le> unat sz
            then Inr (pageTree bs a sz (pre @ encodeName fileName @ map of_char recordType
                @ map of_char ''blob'' @ be32 (word_of_nat (length data)) @ data) ca (cnt + 1))
            else Inl BufferOverflow)"
    by (rule add_pageTree_if[OF b1 b2 l sz n])
       (rule seq_page_if[OF writeStr_page_if[OF _ t]
             seq_page_if[OF writeStr_page_if[OF _ t4]
               seq_page_if[OF writeInt32_page_if[OF _ sz] writeData_page_if]]])
  then show ?thesis by (simp add: AddBlob addBlob_def Let_def)
next
  case (AddBool fileName recordType v)
  have n: "length fileName < 2 ^ 32" and t: "length recordType < 2 ^ 32"
    using c by (simp_all add: AddBool length_encodeName)
  have t4: "length ''bool'' < (2 :: nat) ^ 32" by simp
  have "bind (writeFileName ((pageTree bs a sz pre ca cnt)\<lparr>entryCount := cnt + 1\<rparr>) fileName)
           (\<lambda>t. onPage t (\<lambda>b.
              bind (writeStr b recordType) (\<lambda>b.
              bind (writeStr b ''bool'') (\<lambda>b.
              writeInt8 b v))))
         = (if length pre + length (encodeName fileName @ map of_char recordType
                @ map of_char ''bool'' @ [v]) \<le> unat sz
            then Inr (pageTree bs a sz (pre @ encodeName fileName @ map of_char recordType
                @ map of_char ''bool'' @ [v]) ca (cnt + 1))
            else Inl BufferOverflow)"
    by (rule add_pageTree_if[OF b1 b2 l sz n])
       (rule seq_page_if[OF writeStr_page_if[OF _ t]
             seq_page_if[OF writeStr_page_if[OF _ t4] writeInt8_page_if]])
  then show ?thesis by (simp add: AddBool addBool_def Let_def)
next
  case (AddShort fileName recordType v)
  have n: "length fileName < 2 ^ 32" and t: "length recordType < 2 ^ 32"
    using c by (simp_all add: AddShort length_encodeName)
  have t4: "length ''shor'' < (2 :: nat) ^ 32" by simp
  have "bind (writeFileName ((pageTree bs a sz pre ca cnt)\<lparr>entryCount := cnt + 1\<rparr>) fileName)
           (\<lambda>t. onPage t (\<lambda>b.
              bind (writeStr b recordType) (\<lambda>b.
              bind (writeStr b ''shor'') (\<lambda>b.
              writeInt32 b (ucast v)))))
         = (if length pre + length (encodeName fileName @ map of_char recordType
                @ map of_char ''shor'' @ be32 (ucast v)) \<le> unat sz
            then Inr (pageTree bs a sz (pre @ encodeName fileName @ map of_char recordType
                @ map of_char ''shor'' @ be32 (ucast v)) ca (cnt + 1))
            else Inl BufferOverflow)"
    by (rule add_pageTree_if[OF b1 b2 l sz n])
       (rule seq_page_if[OF writeStr_page_if[OF _ t]
             seq_page_if[OF writeStr_page_if[OF _ t4] writeInt32_page_if[OF _ sz]]])
  then show ?thesis by (simp add: AddShort addShort_def Let_def)
qed

lemma applyCall_finishedTree_if:
  assumes "length post \<le> 12" and "length (encodeEntry c) < 2 ^ 32"
  shows "applyCall (finishedTree pre cnt post cnt') c
         = (if length post + length (encodeEntry c) \<le> 12
            then Inr (finishedTree pre cnt (post @ encodeEntry c) (cnt' + 1))
            else Inl BufferOverflow)"
proof -
  have "applyCall (pageTree [newBlock 0 32, newBlock 32 2048, finishedLeaf pre cnt] 4128 32
          (masterBytes cnt @ post) 4160 cnt') c
        = (if length (masterBytes cnt @ post) + length (encodeEntry c) \<le> unat (32 :: u32)
           then Inr (pageTree [newBlock 0 32, newBlock 32 2048, finishedLeaf pre cnt] 4128 32
                  ((masterBytes cnt @ post) @ encodeEntry c) 4160 (cnt' + 1))
           else Inl BufferOverflow)"
    by (rule applyCall_pageTree_if) (use assms in simp_all)
  then show ?thesis by (simp add: finishedTree_def)
qed

section \<open>Reading the trailer of an alias record\<close>

lemma decodeTrailer_layout:
  assumes d: "drop 150 r = be16 t @ be16 (word_of_nat (length p)) @ p @ s @ z"
    and p: "length p < 2 ^ 16" and s: "length s = 2"
  shows "decodeTrailer r = (t, word_of_nat (length p), p, s)"
proof -
  have "unat (word_of_nat (length p) :: u16) = length p mod 2 ^ 16"
    by (simp only: unat_of_nat) simp
  then have u: "unat (word_of_nat (length p) :: u16) = length p" using p by simp
  have l: "length (be16 t) = 2" "length (be16 (word_of_nat (length p) :: u16)) = 2"
    by (simp_all add: be16_def)
  have d2: "drop 2 (be16 t @ be16 (word_of_nat (length p)) @ p @ s @ z)
            = be16 (word_of_nat (length p)) @ p @ s @ z"
    using l(1) by simp
  have d4: "drop 4 (be16 t @ be16 (word_of_nat (length p)) @ p @ s @ z) = p @ s @ z"
    using l by simp
  have d5: "drop (4 + length p) (be16 t @ be16 (word_of_nat (length p)) @ p @ s @ z) = s @ z"
    using l by simp
  show ?thesis
    unfolding decodeTrailer_def Let_def d d2 rd16_be16 u d4 d5 using s by simp
qed

lemma decodeTrailer_MyDisk:
  "\<exists>r. createAliasFile ''MyDisk'' ''bg.png'' = Inr r
      \<and> decodeTrailer r = (2, 14, map of_char ''MyDisk:bg.png'' @ [0], [0xff, 0xff])"
proof -
  have "length ''MyDisk'' \<le> 27" "length ''bg.png'' \<le> 63" by simp_all
  from createAliasFile_trailer_aux[OF this] obtain r where
    r: "createAliasFile ''MyDisk'' ''bg.png'' = Inr r"
    and d: "drop 150 r = be16 2 @ be16 14 @ map of_char ''MyDisk:bg.png'' @ [0] @ [0xff, 0xff] @ [0, 0]"
    by (auto simp: fullPath_def)
  have "decodeTrailer r = (2, 14, map of_char ''MyDisk:bg.png'' @ [0], [0xff, 0xff])"
    unfolding decodeTrailer_def Let_def d by simp
  with r show ?thesis by blast
qed
text \<open>
  C2 (amended). For a valid requested size \<open>n\<close> (\<open>1 \<le> n \<le> 2^31\<close>), after any run of
  earlier user allocations, \<^verbatim>\<open>allocateBlock(n)\<close> appends one block whose size is the
  smallest power of two that is at least \<open>n\<close>. Its address is the bump pointer, which is the
  sum (modulo \<open>2^32\<close>) of the sizes of all blocks created before it, the two reserved blocks
  included. The address is a multiple of the block's size when the size of the new block
  divides the size of every earlier block; the allocator does not align otherwise.
\<close>

theorem allocateBlock_size_and_address:
  assumes "1 \<le> unat n" and "unat n \<le> 2 ^ 31"
  shows "let a = allocateBlocks newBuddyAllocator ns;
             a' = snd (allocateBlock a n);
             b = last (blocks a')
         in blocks a' = blocks a @ [b]
          \<and> (\<exists>k. length (bytes b) = 2 ^ k)
          \<and> unat n \<le> length (bytes b)
          \<and> (\<forall>j. unat n \<le> 2 ^ j \<longrightarrow> length (bytes b) \<le> 2 ^ j)
          \<and> addr b = sum_list (map bsize (blocks a))
          \<and> ((\<forall>c\<in>set (blocks a). length (bytes b) dvd length (bytes c))
               \<longrightarrow> length (bytes b) dvd unat (addr b))"
proof -
  define a where "a = allocateBlocks newBuddyAllocator ns"
  define b where "b = newBlock (curAddr a) (powerOf2Ceil n)"
  from powerOf2Ceil_least[OF assms] obtain k where k: "k \<le> 31" "powerOf2Ceil n = 2 ^ k"
    "unat n \<le> 2 ^ k" "\<forall>j. unat n \<le> 2 ^ j \<longrightarrow> k \<le> j" by blast
  have len: "length (bytes b) = 2 ^ k" using k(1,2) by (simp add: b_def newBlock_def unat_pow2)
  have bl: "blocks (snd (allocateBlock a n)) = blocks a @ [b]"
    by (simp add: blocks_allocateBlock b_def)
  have ad: "addr b = sum_list (map bsize (blocks a))"
    using curAddr_sum_allocateBlocks[OF curAddr_sum_new, of ns] by (simp add: b_def newBlock_def a_def)
  have least: "length (bytes b) \<le> 2 ^ j" if "unat n \<le> 2 ^ j" for j
    using k(4) that len by simp
  have al: "length (bytes b) dvd unat (addr b)"
    if "\<forall>c\<in>set (blocks a). length (bytes b) dvd length (bytes c)"
    using aligned_sum[of "blocks a" k] that by (simp add: len ad)
  show ?thesis
    unfolding Let_def a_def[symmetric] bl using len k(3) least ad al by (simp add: b_def[symmetric])
qed

theorem allocateBlock_size_and_address_witness:
  "let a = allocateBlocks newBuddyAllocator [2048];
       a' = snd (allocateBlock a 20);
       b = last (blocks a')
   in length (bytes b) = 32 \<and> addr b = 4128 \<and> length (bytes b) dvd unat (addr b)"
proof -
  have h1: "1 \<le> unat (20 :: u32)" by simp
  have h2: "unat (20 :: u32) \<le> 2 ^ 31" by simp
  show ?thesis
    using allocateBlock_size_and_address[OF h1 h2, of "[2048]"]
    by (simp add: Let_def newBuddyAllocator_eq curAddr_allocateBlock blocks_allocateBlock
          powerOf2Ceil_2048 powerOf2Ceil_20 newBlock_def)
qed

text \<open>
  C2 as stated fails: the leaf page that \<^verbatim>\<open>BTree\<close> requests first, 2048 bytes, is placed
  at address 2080, right after the 32-byte header and the 2048-byte metadata block; the
  metadata block itself sits at address 32.
\<close>

theorem allocateBlock_alignment_counterexample:
  "length (bytes (last (blocks (snd (allocateBlock newBuddyAllocator 2048))))) = 2048
   \<and> unat (addr (last (blocks (snd (allocateBlock newBuddyAllocator 2048))))) = 2080
   \<and> \<not> length (bytes (last (blocks (snd (allocateBlock newBuddyAllocator 2048)))))
          dvd unat (addr (last (blocks (snd (allocateBlock newBuddyAllocator 2048)))))
   \<and> length (bytes (blocks newBuddyAllocator ! 1)) = 2048
   \<and> unat (addr (blocks newBuddyAllocator ! 1)) = 32"
  by (simp add: newBuddyAllocator_eq blocks_allocateBlock powerOf2Ceil_2048 newBlock_def)

text \<open>
  C5 (amended). Block ids are 1-based over user blocks: after construction and \<open>k\<close> earlier
  user allocations (fewer than \<open>2^32 - 2\<close>), the next \<^verbatim>\<open>allocateBlock\<close> call returns
  \<open>k + 1\<close>. Id 0 is the reserved metadata block, which \<^verbatim>\<open>getBlock(0)\<close> returns; only
  the header block, at index 0 of the block list, is reachable through no block id.
\<close>

theorem allocateBlock_ids_one_based:
  assumes "length ns + 2 < 2 ^ 32"
  shows "let a = allocateBlocks newBuddyAllocator ns
         in unat (fst (allocateBlock a n)) = length ns + 1
          \<and> blockIndex 0 = 1
          \<and> getBlock a 0 = Inr (newBlock 32 2048)
          \<and> (\<forall>blockId b. getBlock a blockId = Inr b \<longrightarrow>
                 0 < blockIndex blockId \<and> blockIndex blockId < length (blocks a)
                 \<and> b = blocks a ! blockIndex blockId)"
proof -
  define a where "a = allocateBlocks newBuddyAllocator ns"
  have len: "length (blocks a) = length ns + 2"
    by (simp add: a_def length_blocks_allocateBlocks newBuddyAllocator_eq)
  then have l1: "1 \<le> length (blocks a)" and l2: "length (blocks a) < 2 ^ 32"
    using assms by simp_all
  have u: "unat (fst (allocateBlock a n)) = length ns + 1"
    using allocateBlock_id(1)[OF l1 l2, of n] len by simp
  obtain bs where bs: "blocks a = [newBlock 0 32, newBlock 32 2048] @ bs"
    using blocks_allocateBlocks[of newBuddyAllocator ns] by (auto simp: a_def newBuddyAllocator_eq)
  have i0: "blockIndex 0 = 1" by (simp add: blockIndex_def)
  have g0: "getBlock a 0 = Inr (newBlock 32 2048)"
    by (simp add: getBlock_def i0 bs)
  have reach: "0 < blockIndex blockId \<and> blockIndex blockId < length (blocks a)
      \<and> b = blocks a ! blockIndex blockId" if g: "getBlock a blockId = Inr b" for blockId b
  proof -
    from g have ne: "blockId \<noteq> 0xffffffff" by (auto simp: getBlock_def split: if_splits)
    have "blockId + 1 \<noteq> 0"
    proof
      assume "blockId + 1 = 0"
      then have "blockId = - 1" by (simp add: add_eq_0_iff2)
      with ne show False by simp
    qed
    then have "0 < blockIndex blockId" by (simp add: blockIndex_def unat_gt_0)
    with g show ?thesis by (auto simp: getBlock_def split: if_splits)
  qed
  show ?thesis unfolding Let_def a_def[symmetric] using u i0 g0 reach by blast
qed

theorem allocateBlock_ids_one_based_witness:
  "let a = allocateBlocks newBuddyAllocator [2048]
   in unat (fst (allocateBlock a 20)) = 2
    \<and> getBlock a 0 = Inr (newBlock 32 2048)
    \<and> getBlock a 1 = Inr (newBlock 2080 2048)
    \<and> 0 < blockIndex 1"
proof -
  have h: "length [2048 :: u32] + 2 < 2 ^ 32" by simp
  have g: "getBlock (allocateBlocks newBuddyAllocator [2048]) 1 = Inr (newBlock 2080 2048)"
    by (simp add: getBlock_def blockIndex_def newBuddyAllocator_eq blocks_allocateBlock
          powerOf2Ceil_2048)
  show ?thesis
    using allocateBlock_ids_one_based[OF h, of 20] g
    by (simp add: Let_def)
qed

text \<open>
  C5 as stated fails: the first user allocation returns id 1, not 0, and id 0 reaches the
  reserved metadata block.
\<close>

theorem allocateBlock_first_id_counterexample:
  "fst (allocateBlock newBuddyAllocator 2048) \<noteq> 0
   \<and> fst (allocateBlock newBuddyAllocator 2048) = 1
   \<and> getBlock newBuddyAllocator 0 = Inr (blocks newBuddyAllocator ! 1)"
  by (simp add: newBuddyAllocator_eq fst_allocateBlock getBlock_def blockIndex_def)

text \<open>
  C10. After construction and fewer than \<open>2^32 - 2\<close> earlier user allocations,
  \<^verbatim>\<open>allocateBlock\<close> returns the number of blocks allocated before the call minus one
  (so user ids run 1, 2, ...), \<^verbatim>\<open>getBlock\<close> on that id yields the block the call
  appended, and it still does after any number of later allocations.
\<close>

theorem getBlock_allocateBlock_stable:
  assumes "length ns + 2 < 2 ^ 32"
  shows "let a = allocateBlocks newBuddyAllocator ns;
             (blockId, a1) = allocateBlock a n;
             a2 = allocateBlocks a1 ms;
             b = newBlock (curAddr a) (powerOf2Ceil n)
         in blocks a1 = blocks a @ [b]
          \<and> unat blockId = length (blocks a) - 1
          \<and> unat blockId = length ns + 1
          \<and> blockIndex blockId = length (blocks a)
          \<and> getBlock a1 blockId = Inr b
          \<and> getBlock a2 blockId = Inr b"
proof -
  define a where "a = allocateBlocks newBuddyAllocator ns"
  define b where "b = newBlock (curAddr a) (powerOf2Ceil n)"
  define blockId where "blockId = fst (allocateBlock a n)"
  define a1 where "a1 = snd (allocateBlock a n)"
  have len: "length (blocks a) = length ns + 2"
    by (simp add: a_def length_blocks_allocateBlocks newBuddyAllocator_eq)
  then have l1: "1 \<le> length (blocks a)" and l2: "length (blocks a) < 2 ^ 32"
    using assms by simp_all
  have bl: "blocks a1 = blocks a @ [b]" by (simp add: a1_def b_def blocks_allocateBlock)
  obtain cs where cs: "blocks (allocateBlocks a1 ms) = blocks a1 @ cs"
    using blocks_allocateBlocks[of a1 ms] by blast
  have u: "unat blockId = length (blocks a) - 1"
    and ix: "blockIndex blockId = length (blocks a)"
    and ne: "blockId \<noteq> 0xffffffff"
    unfolding blockId_def using allocateBlock_id[OF l1 l2] by simp_all
  have g1: "getBlock a1 blockId = Inr b"
    using ne ix by (rule getBlock_append_new) (simp add: bl)
  have g2: "getBlock (allocateBlocks a1 ms) blockId = Inr b"
    using ne ix by (rule getBlock_append_new) (simp add: bl cs)
  have split: "allocateBlock a n = (blockId, a1)" by (simp add: blockId_def a1_def)
  show ?thesis
    unfolding Let_def a_def[symmetric] split
    using bl u ix g1 g2 len by (simp add: b_def)
qed

theorem getBlock_allocateBlock_stable_witness:
  "let a = allocateBlocks newBuddyAllocator [2048];
       (blockId, a1) = allocateBlock a 20;
       a2 = allocateBlocks a1 [7, 100]
   in blockId = 2 \<and> getBlock a1 blockId = Inr (newBlock 4128 32)
      \<and> getBlock a2 blockId = Inr (newBlock 4128 32)"
proof -
  have h: "length [2048 :: u32] + 2 < 2 ^ 32" by simp
  show ?thesis
    using getBlock_allocateBlock_stable[OF h, of 20 "[7, 100]"]
    by (simp add: Let_def split_beta newBuddyAllocator_eq curAddr_allocateBlock
          fst_allocateBlock blocks_allocateBlock powerOf2Ceil_2048 powerOf2Ceil_20)
qed

text \<open>
  C9. Whatever 32-bit value the bump pointer holds when the free-list loop starts, the loop
  leaves it at 0 modulo \<open>2^32\<close>: \<^verbatim>\<open>createMetaDataBlock\<close> never stops at
  \<^verbatim>\<open>assert(curAddr == 0)\<close>, every run of the loop that returns does so with 0, and the
  loop does return when the metadata block has room for its at most 256 bytes.
\<close>

theorem freeList_assert_never_fails:
  "createMetaDataBlock a bTreeBlockId \<noteq> Inl (AssertFailed ''curAddr == 0'')
   \<and> (\<forall>m' c'. forLoop [0..<32] freeListStep (m, c) = Inr (m', c') \<longrightarrow> c' = 0)
   \<and> (fits m 256 \<longrightarrow> (\<exists>m'. forLoop [0..<32] freeListStep (m, c) = Inr (m', 0)))"
proof -
  have "forLoop [0..<32] freeListStep (m, c)
        = Inr (putAt m (concat (map (bucket c) [0..<32])), 0)" if "fits m 256"
    using freeList_putAt[of 0 32 m c] that by (simp only: freeAddr_32 freeAddr.simps) simp
  then show ?thesis
    using createMetaDataBlock_assert freeList_zero by blast
qed

theorem freeList_assert_never_fails_witness:
  "fits (newBlock 32 2048) 256
   \<and> \<not> isl (forLoop [0..<32] freeListStep (newBlock 32 2048, 4160))
   \<and> snd (projr (forLoop [0..<32] freeListStep (newBlock 32 2048, 4160))) = 0"
proof -
  have f: "fits (newBlock 32 2048) 256" by (rule fits_newBlock) simp
  from freeList_assert_never_fails[of _ _ "newBlock 32 2048" 4160] f
  obtain m' where "forLoop [0..<32] freeListStep (newBlock 32 2048, 4160) = Inr (m', 0)"
    by blast
  then show ?thesis using f by simp
qed

text \<open>
  C3 (amended). With room for 256 bytes at the cursor of the metadata block, the free-list
  loop stores, for each bucket \<open>i < 32\<close>, the pair (1, local bump pointer) exactly when
  bit \<open>i\<close> of the current local bump pointer is set, which is exactly when bit \<open>i\<close> of
  \<open>2^32 - c\<close> is set for the final bump pointer \<open>c\<close>, and the single word 0 otherwise. The
  local pointer at bucket \<open>i\<close> is \<open>c + ((2^32 - c) mod 2^i)\<close>; each entry written
  increases it by \<open>2^i\<close>, and the loop ends with it at 0 modulo \<open>2^32\<close>.
\<close>

theorem freeList_buckets:
  assumes "fits m 256"
  shows "forLoop [0..<32] freeListStep (m, c)
           = Inr (putAt m (concat (map (bucket c) [0..<32])), 0)
       \<and> (\<forall>i<32. bucket c i = (if bit (- c) i then be32 1 @ be32 (c + take_bit i (- c))
                                else be32 0)
              \<and> freeAddr c i = c + take_bit i (- c)
              \<and> (bit (freeAddr c i) i \<longleftrightarrow> bit (- c) i)
              \<and> freeAddr c (Suc i)
                  = (if bit (freeAddr c i) i then freeAddr c i + 2 ^ i else freeAddr c i))
       \<and> freeAddr c 0 = c \<and> freeAddr c 32 = 0"
proof -
  have loop: "forLoop [0..<32] freeListStep (m, c)
        = Inr (putAt m (concat (map (bucket c) [0..<32])), 0)"
    using freeList_putAt[of 0 32 m c] assms by (simp only: freeAddr_32 freeAddr.simps) simp
  have cl: "freeAddr c i = c + take_bit i (- c)" for i
    using freeAddr_closed[of c i] by simp
  have bt: "bit (freeAddr c i) i \<longleftrightarrow> bit (- c) i" if "i < 32" for i
    using freeAddr_closed[of c i] that by blast
  have b: "bucket c i = (if bit (- c) i then be32 1 @ be32 (c + take_bit i (- c)) else be32 0)"
    if "i < 32" for i
    unfolding bucket_def bt[OF that] by (simp only: cl)
  have st: "freeAddr c (Suc i) = (if bit (freeAddr c i) i then freeAddr c i + 2 ^ i else freeAddr c i)"
    for i by simp
  show ?thesis using loop b cl bt st freeAddr_32[of c] by simp
qed

theorem freeList_buckets_witness:
  "fits (newBlock 32 2048) 256
   \<and> forLoop [0..<32] freeListStep (newBlock 32 2048, 4160)
       = Inr (putAt (newBlock 32 2048) (concat (map (bucket 4160) [0..<32])), 0)
   \<and> bit (- 4160 :: u32) 7
   \<and> bucket 4160 7 = be32 1 @ be32 4224"
proof -
  have f: "fits (newBlock 32 2048) 256" by (rule fits_newBlock) simp
  have "(7::nat) < 32" by simp
  with freeList_buckets[OF f, of 4160] have
    "forLoop [0..<32] freeListStep (newBlock 32 2048, 4160)
       = Inr (putAt (newBlock 32 2048) (concat (map (bucket 4160) [0..<32])), 0)"
    "bucket 4160 7 = (if bit (- 4160 :: u32) 7 then be32 1 @ be32 (4160 + take_bit 7 (- 4160))
                                else be32 0)"
    by blast+
  moreover have "bit (- 4160 :: u32) 7" by simp
  moreover have "(4160 :: u32) + take_bit 7 (- 4160) = 4224" by simp
  ultimately show ?thesis using f by simp
qed

text \<open>
  C3 as stated fails at the bump pointer 4160 (header, metadata, one leaf page and the
  master block): bit 7 of 4160 is clear, yet bucket 7 holds the entry (1, 4224), and the
  entry of bucket 6 moved the local pointer up from 4160 to 4224, not down.
\<close>

theorem freeList_buckets_counterexample:
  "\<not> bit (4160 :: u32) 7
   \<and> take 8 (drop 32 (bytes (fst (projr (forLoop [0..<32] freeListStep (newBlock 32 2048, 4160))))))
       = be32 1 @ be32 4224
   \<and> freeAddr 4160 6 = 4160 \<and> freeAddr 4160 7 = 4160 + 2 ^ 6"
proof -
  have f: "fits (newBlock 32 2048) (8 * (32 - 0))" by (rule fits_newBlock) simp
  have loop: "forLoop [0..<32] freeListStep (newBlock 32 2048, 4160)
        = Inr (putAt (newBlock 32 2048) (concat (map (bucket 4160) [0..<32])), 0)"
    using freeList_putAt[of 0 32 "newBlock 32 2048" 4160, OF _ f]
    by (simp only: freeAddr_32 freeAddr.simps)
  have sp: "[0..<32] = [0..<8] @ [8..<32]"
    using upt_add_eq_append[of 0 8 24] by simp
  have by8: "take 8 (drop 32 (concat (map (bucket 4160) [0..<32]) @ rest)) = be32 1 @ be32 4224"
    for rest
    unfolding sp by (simp add: buckets_4160)
  have "take 8 (drop 32 (bytes (putAt (newBlock 32 2048) (concat (map (bucket 4160) [0..<32])))))
        = be32 1 @ be32 4224"
    unfolding bytes_putAt_newBlock
    by (subst patch_eq) (use length_buckets_le[of 4160 "[0..<32]"] in simp, simp only: take0 append_Nil by8)
  moreover have "freeAddr 4160 6 = 4160" "freeAddr 4160 7 = 4160 + 2 ^ 6"
    using freeAddr_closed[of 4160 6] freeAddr_closed[of 4160 7] by simp_all
  ultimately show ?thesis by (simp add: loop)
qed

text \<open>
  C8 (amended). For a volume name of at most 27 bytes and a file name of at most 63 bytes,
  \<^verbatim>\<open>createAliasFile\<close> returns a record whose trailer, from offset 150 on, is the 2-byte
  tag 2, a 2-byte length field, the bytes of \<^verbatim>\<open>volumeName:fileName\<close>, one zero filler byte
  when that path has odd length, and the sentinel \<open>0xff 0xff\<close> (two unused zero bytes end
  the record). The length field holds the path length rounded up to even, so it counts
  the filler, and reading the trailer back by its length field gives the path bytes
  followed by the filler: the literal path when its length is even, the path and a zero
  byte when it is odd. For \<^verbatim>\<open>MyDisk\<close> and \<^verbatim>\<open>bg.png\<close> the trailer decodes to tag 2, length 14
  and the 14 bytes of \<^verbatim>\<open>MyDisk:bg.png\<close> with a zero byte behind them; only a reader that
  cuts the path at the first zero byte gets the 13 characters \<^verbatim>\<open>MyDisk:bg.png\<close>.
\<close>

theorem createAliasFile_trailer:
  assumes "length volumeName \<le> 27" and "length fileName \<le> 63"
  shows "(let n = length volumeName + length fileName + 1;
              fullPathSize = (if odd n then n + 1 else n);
              filler = (if odd n then [0] else [])
          in \<exists>r. createAliasFile volumeName fileName = Inr r
               \<and> length r = 158 + fullPathSize
               \<and> drop 150 r
                  = be16 2 @ be16 (word_of_nat fullPathSize)
                    @ map of_char (volumeName @ '':'' @ fileName)
                    @ filler
                    @ [0xff, 0xff] @ [0, 0]
               \<and> decodeTrailer r
                  = (2, word_of_nat fullPathSize,
                     map of_char (volumeName @ '':'' @ fileName) @ filler, [0xff, 0xff]))
       \<and> (\<exists>r. createAliasFile ''MyDisk'' ''bg.png'' = Inr r
               \<and> decodeTrailer r = (2, 14, map of_char ''MyDisk:bg.png'' @ [0], [0xff, 0xff])
               \<and> length (fst (snd (snd (decodeTrailer r)))) = 14
               \<and> cstring (fst (snd (snd (decodeTrailer r)))) = ''MyDisk:bg.png'')"
proof -
  define n where "n = length volumeName + length fileName + 1"
  define filler :: "u8 list" where "filler = (if odd n then [0] else [])"
  define p where "p = map of_char (volumeName @ '':'' @ fileName) @ filler"
  have fp: "fullPath volumeName fileName = (if odd n then n + 1 else n)"
    by (simp add: fullPath_def n_def Let_def)
  have lp: "length p = fullPath volumeName fileName"
    by (simp add: p_def filler_def fp) (simp add: n_def)
  have small: "length p < 2 ^ 16" using assms by (simp add: lp fp n_def)
  from createAliasFile_trailer_aux[OF assms] obtain r where
    r: "createAliasFile volumeName fileName = Inr r"
    and l: "length r = 158 + fullPath volumeName fileName"
    and d: "drop 150 r
          = be16 2 @ be16 (word_of_nat (fullPath volumeName fileName))
            @ map of_char (volumeName @ '':'' @ fileName)
            @ (if odd (length volumeName + length fileName + 1) then [0] else [])
            @ [0xff, 0xff] @ [0, 0]"
    by blast
  have d': "drop 150 r = be16 2 @ be16 (word_of_nat (length p)) @ p @ [0xff, 0xff] @ [0, 0]"
    unfolding lp d by (simp add: p_def filler_def n_def)
  have dp: "decodeTrailer r = (2, word_of_nat (length p), p, [0xff, 0xff])"
    using d' small by (rule decodeTrailer_layout) simp
  have dt: "decodeTrailer r
      = (2, word_of_nat (fullPath volumeName fileName),
         map of_char (volumeName @ '':'' @ fileName) @ filler, [0xff, 0xff])"
    using dp[unfolded lp] by (simp only: p_def)
  have gen: "\<exists>r. createAliasFile volumeName fileName = Inr r
       \<and> length r = 158 + (if odd n then n + 1 else n)
       \<and> drop 150 r
          = be16 2 @ be16 (word_of_nat (if odd n then n + 1 else n))
            @ map of_char (volumeName @ '':'' @ fileName)
            @ filler
            @ [0xff, 0xff] @ [0, 0]
       \<and> decodeTrailer r
          = (2, word_of_nat (if odd n then n + 1 else n),
             map of_char (volumeName @ '':'' @ fileName) @ filler, [0xff, 0xff])"
    using r l[unfolded fp] d[unfolded fp n_def[symmetric] filler_def[symmetric]] dt[unfolded fp]
    by blast
  from decodeTrailer_MyDisk obtain r' where
    r': "createAliasFile ''MyDisk'' ''bg.png'' = Inr r'"
    and t': "decodeTrailer r' = (2, 14, map of_char ''MyDisk:bg.png'' @ [0], [0xff, 0xff])"
    by blast
  have "length (fst (snd (snd (decodeTrailer r')))) = 14
      \<and> cstring (fst (snd (snd (decodeTrailer r')))) = ''MyDisk:bg.png''"
    unfolding t' using cstring_MyDisk by simp
  with r' t' have inst: "\<exists>r. createAliasFile ''MyDisk'' ''bg.png'' = Inr r
               \<and> decodeTrailer r = (2, 14, map of_char ''MyDisk:bg.png'' @ [0], [0xff, 0xff])
               \<and> length (fst (snd (snd (decodeTrailer r)))) = 14
               \<and> cstring (fst (snd (snd (decodeTrailer r)))) = ''MyDisk:bg.png''"
    by blast
  show ?thesis
    unfolding Let_def n_def[symmetric] filler_def[symmetric] using gen inst by blast
qed

theorem createAliasFile_trailer_witness:
  "length ''Vol'' \<le> 27 \<and> length ''bg.png'' \<le> 63
   \<and> \<not> isl (createAliasFile ''Vol'' ''bg.png'')
   \<and> length (projr (createAliasFile ''Vol'' ''bg.png'')) = 168
   \<and> drop 150 (projr (createAliasFile ''Vol'' ''bg.png''))
      = be16 2 @ be16 10 @ map of_char ''Vol:bg.png'' @ [0xff, 0xff] @ [0, 0]
   \<and> decodeTrailer (projr (createAliasFile ''Vol'' ''bg.png''))
      = (2, 10, map of_char ''Vol:bg.png'', [0xff, 0xff])"
proof -
  have h: "length ''Vol'' \<le> 27" "length ''bg.png'' \<le> 63" by simp_all
  from createAliasFile_trailer[OF h] obtain r where
    "createAliasFile ''Vol'' ''bg.png'' = Inr r" "length r = 168"
    "drop 150 r = be16 2 @ be16 10 @ map of_char ''Vol:bg.png'' @ [0xff, 0xff] @ [0, 0]"
    "decodeTrailer r = (2, 10, map of_char ''Vol:bg.png'', [0xff, 0xff])"
    by (auto simp: Let_def)
  then show ?thesis by simp
qed

text \<open>
  C8 as stated fails in its last part: the trailer of the record for \<^verbatim>\<open>MyDisk\<close> and
  \<^verbatim>\<open>bg.png\<close> has the length field 14, not the length 13 of the path, and the path read
  back by that field is 14 bytes long and differs from the literal \<^verbatim>\<open>MyDisk:bg.png\<close>.
\<close>

theorem createAliasFile_roundtrip_counterexample:
  "\<not> isl (createAliasFile ''MyDisk'' ''bg.png'')
   \<and> decodeTrailer (projr (createAliasFile ''MyDisk'' ''bg.png''))
      = (2, 14, map of_char ''MyDisk:bg.png'' @ [0], [0xff, 0xff])
   \<and> fst (snd (decodeTrailer (projr (createAliasFile ''MyDisk'' ''bg.png'')))) = 14
   \<and> length ''MyDisk:bg.png'' = 13
   \<and> length (fst (snd (snd (decodeTrailer (projr (createAliasFile ''MyDisk'' ''bg.png'')))))) = 14
   \<and> fst (snd (snd (decodeTrailer (projr (createAliasFile ''MyDisk'' ''bg.png'')))))
      \<noteq> map of_char ''MyDisk:bg.png''"
proof -
  from decodeTrailer_MyDisk obtain r where
    r: "createAliasFile ''MyDisk'' ''bg.png'' = Inr r"
    and t: "decodeTrailer r = (2, 14, map of_char ''MyDisk:bg.png'' @ [0], [0xff, 0xff])"
    by blast
  show ?thesis by (simp add: r t)
qed

text \<open>
  C6 (amended). Take the tree of \<^verbatim>\<open>main\<close>, built on a fresh allocator, and any run of
  \<^verbatim>\<open>addBlob\<close>, \<^verbatim>\<open>addBool\<close> and \<^verbatim>\<open>addShort\<close> calls whose entries fit the page (2040
  bytes after its two header words). The page is created with a zero count at offset 4, the
  calls and \<^verbatim>\<open>finish\<close> succeed, and \<^verbatim>\<open>finish\<close> stores the number of calls at offset 4 of
  the leaf page. The tree has no finished state: after \<^verbatim>\<open>finish\<close> the current page is the
  master block, and no add call is rejected by a check. Every add call made then either
  returns normally with the entry count raised by one, or makes a store outside the 32-byte
  master block, which the code does not check; no other outcome exists. A call whose entry
  fits the 12 bytes left in the master block returns normally, counts one more entry and
  writes the entry behind the five words of the master block, leaving the leaf page as it
  was; a call whose entry is longer, as that of every call with a record type of four
  characters, makes a store outside the block.
\<close>

theorem finish_entry_count:
  assumes "length (concat (map encodeEntry cs)) \<le> 2040"
  shows "\<exists>t0 t t' page0 leaf master.
           newBTree newBuddyAllocator = Inr t0
         \<and> getBlock (buddy t0) (curPageId t0) = Inr page0
         \<and> rd32 (drop 4 (bytes page0)) = 0
         \<and> applyCalls t0 cs = Inr t
         \<and> curPageId t = curPageId t0
         \<and> finish t = Inr (curPageId t', t')
         \<and> getBlock (buddy t') (curPageId t) = Inr leaf
         \<and> unat (rd32 (drop 4 (bytes leaf))) = length cs
         \<and> curPageId t' \<noteq> curPageId t
         \<and> getBlock (buddy t') (curPageId t') = Inr master
         \<and> (\<forall>c. applyCall t' c = Inl BufferOverflow
                \<or> (\<exists>t''. applyCall t' c = Inr t''
                       \<and> entryCount t'' = entryCount t' + 1
                       \<and> curPageId t'' = curPageId t'))
         \<and> (\<forall>c. length (encodeEntry c) \<le> 12 \<longrightarrow>
               (\<exists>t'' master'. applyCall t' c = Inr t''
                  \<and> entryCount t'' = entryCount t' + 1
                  \<and> curPageId t'' = curPageId t'
                  \<and> getBlock (buddy t'') (curPageId t') = Inr master'
                  \<and> bytes master' = take 20 (bytes master) @ encodeEntry c
                                      @ replicate (12 - length (encodeEntry c)) 0
                  \<and> getBlock (buddy t'') (curPageId t) = Inr leaf))
         \<and> (\<forall>c. 12 < length (encodeEntry c) \<and> length (encodeEntry c) < 2 ^ 32 \<longrightarrow>
               applyCall t' c = Inl BufferOverflow)
         \<and> (\<forall>fileName recordType v w. length fileName < 2 ^ 30 \<and> length recordType = 4 \<longrightarrow>
               addBool t' fileName recordType v = Inl BufferOverflow
             \<and> addShort t' fileName recordType w = Inl BufferOverflow)
         \<and> (\<forall>fileName recordType data.
               length fileName < 2 ^ 30 \<and> length recordType = 4 \<and> length data < 2 ^ 30 \<longrightarrow>
               addBlob t' fileName recordType data = Inl BufferOverflow)"
proof -
  define pre where "pre = be32 0 @ be32 0 @ concat (map encodeEntry cs)"
  define n :: u32 where "n = word_of_nat (length cs)"
  have lp: "8 \<le> length pre" "length pre \<le> 2048" using assms by (simp_all add: pre_def)
  have "length cs < 2 ^ 32" using length_entries_ge[of cs] assms by simp
  then have un: "unat n = length cs" unfolding n_def by (rule unat_of_nat_small)
  have t0: "newBTree newBuddyAllocator = Inr (leafTree (be32 0 @ be32 0) 0)" by (rule newBTree_new)
  have p0: "getBlock (buddy (leafTree (be32 0 @ be32 0) 0)) (curPageId (leafTree (be32 0 @ be32 0) 0))
            = Inr (putAt (newBlock 2080 2048) (be32 0 @ be32 0))"
    by (simp add: getBlock_leafTree)
  have z: "rd32 (drop 4 (bytes (putAt (newBlock 2080 2048) (be32 0 @ be32 0)))) = 0"
    by (simp add: bytes_page)
  have t: "applyCalls (leafTree (be32 0 @ be32 0) 0) cs = Inr (leafTree pre n)"
    using applyCalls_leafTree[of "be32 0 @ be32 0" cs 0] assms by (simp add: pre_def n_def)
  have f: "finish (leafTree pre n) = Inr (curPageId (finishedTree pre n [] n), finishedTree pre n [] n)"
    using finish_leafTree[OF lp, of n] by simp
  have lf: "getBlock (buddy (finishedTree pre n [] n)) (curPageId (leafTree pre n))
            = Inr (finishedLeaf pre n)"
    by (simp add: getBlock_finishedTree)
  have cnt: "unat (rd32 (drop 4 (bytes (finishedLeaf pre n)))) = length cs"
    by (simp add: count_finishedLeaf[OF lp] un)
  have ms: "getBlock (buddy (finishedTree pre n [] n)) (curPageId (finishedTree pre n [] n))
            = Inr (putAt (newBlock 4128 32) (masterBytes n))"
    using getBlock_finishedTree(2)[of pre n "[]" n] by simp
  have any: "\<forall>c. applyCall (finishedTree pre n [] n) c = Inl BufferOverflow
                \<or> (\<exists>t''. applyCall (finishedTree pre n [] n) c = Inr t''
                       \<and> entryCount t'' = entryCount (finishedTree pre n [] n) + 1
                       \<and> curPageId t'' = curPageId (finishedTree pre n [] n))"
    using applyCall_finishedTree_outcome[of pre n "[]" n] by simp
  have after: "\<exists>t'' master'. applyCall (finishedTree pre n [] n) c = Inr t''
        \<and> entryCount t'' = entryCount (finishedTree pre n [] n) + 1
        \<and> curPageId t'' = curPageId (finishedTree pre n [] n)
        \<and> getBlock (buddy t'') (curPageId (finishedTree pre n [] n)) = Inr master'
        \<and> bytes master' = take 20 (bytes (putAt (newBlock 4128 32) (masterBytes n)))
                            @ encodeEntry c @ replicate (12 - length (encodeEntry c)) 0
        \<and> getBlock (buddy t'') (curPageId (leafTree pre n)) = Inr (finishedLeaf pre n)"
    if c: "length (encodeEntry c) \<le> 12" for c
  proof -
    have a: "applyCall (finishedTree pre n [] n) c = Inr (finishedTree pre n (encodeEntry c) (n + 1))"
      using applyCall_finishedTree[of "[]" c pre n n] c by simp
    have b: "bytes (putAt (newBlock 4128 32) (masterBytes n @ encodeEntry c))
             = take 20 (bytes (putAt (newBlock 4128 32) (masterBytes n)))
               @ encodeEntry c @ replicate (12 - length (encodeEntry c)) 0"
      using c by (simp add: bytes_page)
    show ?thesis
      unfolding a using b by (simp add: getBlock_finishedTree)
  qed
  have all: "\<forall>c. length (encodeEntry c) \<le> 12 \<longrightarrow>
      (\<exists>t'' master'. applyCall (finishedTree pre n [] n) c = Inr t''
        \<and> entryCount t'' = entryCount (finishedTree pre n [] n) + 1
        \<and> curPageId t'' = curPageId (finishedTree pre n [] n)
        \<and> getBlock (buddy t'') (curPageId (finishedTree pre n [] n)) = Inr master'
        \<and> bytes master' = take 20 (bytes (putAt (newBlock 4128 32) (masterBytes n)))
                            @ encodeEntry c @ replicate (12 - length (encodeEntry c)) 0
        \<and> getBlock (buddy t'') (curPageId (leafTree pre n)) = Inr (finishedLeaf pre n))"
    using after by blast
  have over: "applyCall (finishedTree pre n [] n) c = Inl BufferOverflow"
    if "12 < length (encodeEntry c)" "length (encodeEntry c) < 2 ^ 32" for c
    using applyCall_finishedTree_if[of "[]" c pre n n] that by simp
  have long: "\<forall>c. 12 < length (encodeEntry c) \<and> length (encodeEntry c) < 2 ^ 32 \<longrightarrow>
               applyCall (finishedTree pre n [] n) c = Inl BufferOverflow"
    using over by blast
  have four: "\<forall>fileName recordType v w. length fileName < 2 ^ 30 \<and> length recordType = 4 \<longrightarrow>
               addBool (finishedTree pre n [] n) fileName recordType v = Inl BufferOverflow
             \<and> addShort (finishedTree pre n [] n) fileName recordType w = Inl BufferOverflow"
  proof (intro allI impI)
    fix fileName recordType :: string and v :: u8 and w :: u16
    assume "length fileName < 2 ^ 30 \<and> length recordType = 4"
    then have h: "length fileName < 2 ^ 30" "length recordType = 4" by simp_all
    have "applyCall (finishedTree pre n [] n) (AddBool fileName recordType v) = Inl BufferOverflow"
      by (rule over) (use h in \<open>simp_all add: length_encodeName\<close>)
    moreover have "applyCall (finishedTree pre n [] n) (AddShort fileName recordType w)
                   = Inl BufferOverflow"
      by (rule over) (use h in \<open>simp_all add: length_encodeName\<close>)
    ultimately show "addBool (finishedTree pre n [] n) fileName recordType v = Inl BufferOverflow
             \<and> addShort (finishedTree pre n [] n) fileName recordType w = Inl BufferOverflow"
      by simp
  qed
  have fourb: "\<forall>fileName recordType data.
               length fileName < 2 ^ 30 \<and> length recordType = 4 \<and> length data < 2 ^ 30 \<longrightarrow>
               addBlob (finishedTree pre n [] n) fileName recordType data = Inl BufferOverflow"
  proof (intro allI impI)
    fix fileName recordType :: string and data :: "u8 list"
    assume "length fileName < 2 ^ 30 \<and> length recordType = 4 \<and> length data < 2 ^ 30"
    then have h: "length fileName < 2 ^ 30" "length recordType = 4" "length data < 2 ^ 30"
      by simp_all
    have "applyCall (finishedTree pre n [] n) (AddBlob fileName recordType data) = Inl BufferOverflow"
      by (rule over) (use h in \<open>simp_all add: length_encodeName\<close>)
    then show "addBlob (finishedTree pre n [] n) fileName recordType data = Inl BufferOverflow"
      by simp
  qed
  have ne: "curPageId (finishedTree pre n [] n) \<noteq> curPageId (leafTree pre n)"
    and same: "curPageId (leafTree pre n) = curPageId (leafTree (be32 0 @ be32 0) 0)" by simp_all
  show ?thesis
    apply (rule exI[of _ "leafTree (be32 0 @ be32 0) 0"])
    apply (rule exI[of _ "leafTree pre n"])
    apply (rule exI[of _ "finishedTree pre n [] n"])
    apply (rule exI[of _ "putAt (newBlock 2080 2048) (be32 0 @ be32 0)"])
    apply (rule exI[of _ "finishedLeaf pre n"])
    apply (rule exI[of _ "putAt (newBlock 4128 32) (masterBytes n)"])
    using t0 p0 z t f lf cnt ms any all long four fourb ne same by (intro conjI) assumption+
qed

theorem finish_entry_count_witness:
  "length (concat (map encodeEntry [AddBool ''.'' ''ICVO'' 1])) \<le> 2040
   \<and> length (encodeEntry (AddBool [] [] 1)) \<le> 12
   \<and> 12 < length (encodeEntry (AddShort ''.'' ''icvt'' 16))
   \<and> length (encodeEntry (AddShort ''.'' ''icvt'' 16)) < 2 ^ 32
   \<and> length ''.'' < 2 ^ 30 \<and> length ''ICVO'' = 4
   \<and> length ''.'' < 2 ^ 30 \<and> length ''pict'' = 4 \<and> length [0 :: u8] < 2 ^ 30
   \<and> (\<exists>t0 t t' leaf.
           newBTree newBuddyAllocator = Inr t0
         \<and> applyCalls t0 [AddBool ''.'' ''ICVO'' 1] = Inr t
         \<and> finish t = Inr (curPageId t', t')
         \<and> getBlock (buddy t') (curPageId t) = Inr leaf
         \<and> unat (rd32 (drop 4 (bytes leaf))) = 1
         \<and> (\<exists>t''. applyCall t' (AddBool [] [] 1) = Inr t''
                \<and> entryCount t'' = entryCount t' + 1)
         \<and> applyCall t' (AddShort ''.'' ''icvt'' 16) = Inl BufferOverflow
         \<and> addBool t' ''.'' ''ICVO'' 1 = Inl BufferOverflow
         \<and> addBlob t' ''.'' ''pict'' [0] = Inl BufferOverflow)"
proof -
  have h: "length (concat (map encodeEntry [AddBool ''.'' ''ICVO'' 1])) \<le> 2040"
    by (simp add: length_encodeName)
  have c: "length (encodeEntry (AddBool [] [] 1)) \<le> 12"
    by (simp add: length_encodeName)
  have d: "12 < length (encodeEntry (AddShort ''.'' ''icvt'' 16))
           \<and> length (encodeEntry (AddShort ''.'' ''icvt'' 16)) < 2 ^ 32"
    by (simp add: length_encodeName)
  have e: "length ''.'' < 2 ^ 30 \<and> length ''ICVO'' = 4" by simp
  have g: "length ''.'' < 2 ^ 30 \<and> length ''pict'' = 4 \<and> length [0 :: u8] < 2 ^ 30" by simp
  from finish_entry_count[OF h] obtain t0 t t' page0 leaf master where
    f1: "newBTree newBuddyAllocator = Inr t0"
    and "getBlock (buddy t0) (curPageId t0) = Inr page0"
    and "rd32 (drop 4 (bytes page0)) = 0"
    and f2: "applyCalls t0 [AddBool ''.'' ''ICVO'' 1] = Inr t"
    and "curPageId t = curPageId t0"
    and f3: "finish t = Inr (curPageId t', t')"
    and f4: "getBlock (buddy t') (curPageId t) = Inr leaf"
    and f5: "unat (rd32 (drop 4 (bytes leaf))) = length [AddBool ''.'' ''ICVO'' 1]"
    and "curPageId t' \<noteq> curPageId t"
    and "getBlock (buddy t') (curPageId t') = Inr master"
    and "\<forall>c. applyCall t' c = Inl BufferOverflow
                \<or> (\<exists>t''. applyCall t' c = Inr t''
                       \<and> entryCount t'' = entryCount t' + 1
                       \<and> curPageId t'' = curPageId t')"
    and f6: "\<forall>c. length (encodeEntry c) \<le> 12 \<longrightarrow>
               (\<exists>t'' master'. applyCall t' c = Inr t''
                  \<and> entryCount t'' = entryCount t' + 1
                  \<and> curPageId t'' = curPageId t'
                  \<and> getBlock (buddy t'') (curPageId t') = Inr master'
                  \<and> bytes master' = take 20 (bytes master) @ encodeEntry c
                                      @ replicate (12 - length (encodeEntry c)) 0
                  \<and> getBlock (buddy t'') (curPageId t) = Inr leaf)"
    and f9: "\<forall>c. 12 < length (encodeEntry c) \<and> length (encodeEntry c) < 2 ^ 32 \<longrightarrow>
               applyCall t' c = Inl BufferOverflow"
    and f10: "\<forall>fileName recordType v w. length fileName < 2 ^ 30 \<and> length recordType = 4 \<longrightarrow>
               addBool t' fileName recordType v = Inl BufferOverflow
             \<and> addShort t' fileName recordType w = Inl BufferOverflow"
    and f11: "\<forall>fileName recordType data.
               length fileName < 2 ^ 30 \<and> length recordType = 4 \<and> length data < 2 ^ 30 \<longrightarrow>
               addBlob t' fileName recordType data = Inl BufferOverflow"
    by (elim exE conjE) (rule that, assumption+)
  from f6 c have f7: "\<exists>t''. applyCall t' (AddBool [] [] 1) = Inr t''
                \<and> entryCount t'' = entryCount t' + 1" by blast
  from f5 have f8: "unat (rd32 (drop 4 (bytes leaf))) = 1" by simp
  from f9 d have f12: "applyCall t' (AddShort ''.'' ''icvt'' 16) = Inl BufferOverflow" by blast
  from f10 e have f13: "addBool t' ''.'' ''ICVO'' 1 = Inl BufferOverflow" by blast
  from f11 g have f14: "addBlob t' ''.'' ''pict'' [0] = Inl BufferOverflow" by blast
  have "\<exists>t0 t t' leaf.
           newBTree newBuddyAllocator = Inr t0
         \<and> applyCalls t0 [AddBool ''.'' ''ICVO'' 1] = Inr t
         \<and> finish t = Inr (curPageId t', t')
         \<and> getBlock (buddy t') (curPageId t) = Inr leaf
         \<and> unat (rd32 (drop 4 (bytes leaf))) = 1
         \<and> (\<exists>t''. applyCall t' (AddBool [] [] 1) = Inr t''
                \<and> entryCount t'' = entryCount t' + 1)
         \<and> applyCall t' (AddShort ''.'' ''icvt'' 16) = Inl BufferOverflow
         \<and> addBool t' ''.'' ''ICVO'' 1 = Inl BufferOverflow
         \<and> addBlob t' ''.'' ''pict'' [0] = Inl BufferOverflow"
    using f1 f2 f3 f4 f7 f8 f12 f13 f14 by blast
  with h c d e g show ?thesis by blast
qed

text \<open>
  C6 as stated fails in its second half. After \<^verbatim>\<open>finish\<close> on the fresh tree,
  \<^verbatim>\<open>addBool("", "", 1)\<close> returns normally, with the entry count raised to 1 and nine bytes
  written into the master block. \<^verbatim>\<open>addBool(".", "ICVO", 1)\<close> is not rejected either: its
  first two statements, the increment of the entry count and \<^verbatim>\<open>writeFileName\<close>, run
  normally and leave the count at 1 and the six bytes of the name in the master block, and
  the call then goes on to a store outside the block instead of reporting an error.
\<close>

theorem add_after_finish_counterexample:
  "newBTree newBuddyAllocator = Inr (leafTree (be32 0 @ be32 0) 0)
   \<and> finish (leafTree (be32 0 @ be32 0) 0) = Inr (2, finishedTree (be32 0 @ be32 0) 0 [] 0)
   \<and> addBool (finishedTree (be32 0 @ be32 0) 0 [] 0) [] [] 1
       = Inr (finishedTree (be32 0 @ be32 0) 0 (encodeEntry (AddBool [] [] 1)) 1)
   \<and> entryCount (finishedTree (be32 0 @ be32 0) 0 (encodeEntry (AddBool [] [] 1)) 1) = 1
   \<and> bytes (projr (getBlock (buddy (finishedTree (be32 0 @ be32 0) 0 (encodeEntry (AddBool [] [] 1)) 1)) 2))
       = masterBytes 0 @ be32 0 @ map of_char ''bool'' @ [1, 0, 0, 0]
   \<and> writeFileName ((finishedTree (be32 0 @ be32 0) 0 [] 0)
         \<lparr>entryCount := entryCount (finishedTree (be32 0 @ be32 0) 0 [] 0) + 1\<rparr>) ''.''
       = Inr (finishedTree (be32 0 @ be32 0) 0 (encodeName ''.'') 1)
   \<and> entryCount (finishedTree (be32 0 @ be32 0) 0 (encodeName ''.'') 1) = 1
   \<and> bytes (projr (getBlock (buddy (finishedTree (be32 0 @ be32 0) 0 (encodeName ''.'') 1)) 2))
       = masterBytes 0 @ be32 1 @ be16 0x2e @ [0, 0, 0, 0, 0, 0]
   \<and> addBool (finishedTree (be32 0 @ be32 0) 0 [] 0) ''.'' ''ICVO'' 1 = Inl BufferOverflow"
proof -
  have f: "finish (leafTree (be32 0 @ be32 0) 0) = Inr (2, finishedTree (be32 0 @ be32 0) 0 [] 0)"
    by (rule finish_leafTree) simp_all
  have a: "applyCall (finishedTree (be32 0 @ be32 0) 0 [] 0) (AddBool [] [] 1)
       = Inr (finishedTree (be32 0 @ be32 0) 0 ([] @ encodeEntry (AddBool [] [] 1)) (0 + 1))"
    by (rule applyCall_finishedTree) (simp add: length_encodeName)
  have b: "bytes (putAt (newBlock 4128 32) (masterBytes 0 @ encodeEntry (AddBool [] [] 1)))
       = masterBytes 0 @ be32 0 @ map of_char ''bool'' @ [1, 0, 0, 0]"
  proof -
    have r: "replicate 3 (0 :: u8) = [0, 0, 0]" by (simp add: numeral_eq_Suc)
    show ?thesis by (simp add: bytes_page encodeName_def r)
  qed
  have w: "writeFileName ((finishedTree (be32 0 @ be32 0) 0 [] 0)
         \<lparr>entryCount := entryCount (finishedTree (be32 0 @ be32 0) 0 [] 0) + 1\<rparr>) ''.''
       = Inr (finishedTree (be32 0 @ be32 0) 0 (encodeName ''.'') 1)"
  proof -
    have "writeFileName (pageTree [newBlock 0 32, newBlock 32 2048, finishedLeaf (be32 0 @ be32 0) 0]
             4128 32 (masterBytes 0 @ []) 4160 1) ''.''
          = Inr (pageTree [newBlock 0 32, newBlock 32 2048, finishedLeaf (be32 0 @ be32 0) 0]
             4128 32 ((masterBytes 0 @ []) @ encodeName ''.'') 4160 1)"
      by (rule writeFileName_pageTree) simp_all
    then show ?thesis by (simp add: finishedTree_def entryCount_pageTree)
  qed
  have m: "bytes (putAt (newBlock 4128 32) (masterBytes 0 @ encodeName ''.''))
       = masterBytes 0 @ be32 1 @ be16 0x2e @ [0, 0, 0, 0, 0, 0]"
  proof -
    have r: "replicate 6 (0 :: u8) = [0, 0, 0, 0, 0, 0]" by (simp add: numeral_eq_Suc)
    have c: "char16 CHR ''.'' = 0x2e" by (simp add: char16_def)
    show ?thesis by (simp add: bytes_page encodeName_def r c)
  qed
  have o: "applyCall (finishedTree (be32 0 @ be32 0) 0 [] 0) (AddBool ''.'' ''ICVO'' 1)
           = Inl BufferOverflow"
    using applyCall_finishedTree_if[of "[]" "AddBool ''.'' ''ICVO'' 1" "be32 0 @ be32 0" 0 0]
    by (simp add: length_encodeName)
  show ?thesis using newBTree_new f a b w m o by (simp add: getBlock_finishedTree)
qed

text \<open>
  C4 (amended). Take an allocator reached by construction, allocations and writes through
  block ids, whose metadata block is still unwritten, with at most 257 blocks, every block
  after the header non-empty and at an address that is a multiple of 32. Then
  \<^verbatim>\<open>createMetaDataBlock\<close> returns, and decoding the table it wrote (the count at offset 0,
  entry \<open>i\<close> at offset \<open>8 + 4 i\<close> holding address OR log2 of the size) gives back the
  allocator's block list without the header block, each block with its address and size:
  entry \<open>i\<close> is the block with id \<open>i\<close>, the metadata block first. The slots from the
  block count on are zero, and the blocks keep their addresses and sizes.
\<close>

theorem table_roundtrip:
  assumes "reachable a" and "blocks a ! 1 = newBlock 32 2048" and "length (blocks a) \<le> 257"
    and "\<forall>b\<in>set (tl (blocks a)). addr b AND 0x1f = 0 \<and> bytes b \<noteq> []"
  shows "\<exists>a'. createMetaDataBlock a bTreeBlockId = Inr a'
           \<and> decodeTable (bytes (blocks a' ! 1)) = tl (layout a)
           \<and> layout a' = layout a
           \<and> (\<forall>i. length (blocks a) - 1 \<le> i \<and> i < 256 \<longrightarrow>
                  rd32 (drop (8 + 4 * i) (bytes (blocks a' ! 1))) = 0)"
  using assms by (rule table_decode)

theorem table_roundtrip_witness:
  "reachable (buddy (finishedTree (be32 0 @ be32 0) 0 [] 0))
   \<and> blocks (buddy (finishedTree (be32 0 @ be32 0) 0 [] 0)) ! 1 = newBlock 32 2048
   \<and> length (blocks (buddy (finishedTree (be32 0 @ be32 0) 0 [] 0))) \<le> 257
   \<and> \<not> isl (createMetaDataBlock (buddy (finishedTree (be32 0 @ be32 0) 0 [] 0)) 2)
   \<and> decodeTable (bytes (blocks (projr
         (createMetaDataBlock (buddy (finishedTree (be32 0 @ be32 0) 0 [] 0)) 2)) ! 1))
       = [(32, 2048), (2080, 2048), (4128, 32)]"
proof -
  note r = reachable_finishedTree[of "be32 0 @ be32 0" 0 "[]" 0]
  note h = hyps_finishedTree[of "be32 0 @ be32 0" 0 "[]" 0]
  from table_roundtrip[OF r h, of 2] obtain a' where
    "createMetaDataBlock (buddy (finishedTree (be32 0 @ be32 0) 0 [] 0)) 2 = Inr a'"
    "decodeTable (bytes (blocks a' ! 1)) = tl (layout (buddy (finishedTree (be32 0 @ be32 0) 0 [] 0)))"
    by blast
  then show ?thesis using r h(1,2) by (simp add: layout_finishedTree)
qed

text \<open>
  C4 as stated fails on every run of \<^verbatim>\<open>main\<close>: the allocator holds four blocks, the header
  at address 0 among them, and the table decodes to the other three.
\<close>

theorem table_roundtrip_counterexample:
  "layout (buddy (finishedTree (be32 0 @ be32 0) 0 [] 0))
     = [(0, 32), (32, 2048), (2080, 2048), (4128, 32)]
   \<and> decodeTable (bytes (blocks (projr
         (createMetaDataBlock (buddy (finishedTree (be32 0 @ be32 0) 0 [] 0)) 2)) ! 1))
       = [(32, 2048), (2080, 2048), (4128, 32)]
   \<and> decodeTable (bytes (blocks (projr
         (createMetaDataBlock (buddy (finishedTree (be32 0 @ be32 0) 0 [] 0)) 2)) ! 1))
       \<noteq> layout (buddy (finishedTree (be32 0 @ be32 0) 0 [] 0))"
proof -
  note r = reachable_finishedTree[of "be32 0 @ be32 0" 0 "[]" 0]
  note h = hyps_finishedTree[of "be32 0 @ be32 0" 0 "[]" 0]
  from table_decode[OF r h, of 2] obtain a' where
    "createMetaDataBlock (buddy (finishedTree (be32 0 @ be32 0) 0 [] 0)) 2 = Inr a'"
    "decodeTable (bytes (blocks a' ! 1)) = tl (layout (buddy (finishedTree (be32 0 @ be32 0) 0 [] 0)))"
    by blast
  then show ?thesis by (simp add: layout_finishedTree)
qed

text \<open>
  C7. For every allocator reached by construction, allocations and writes through block
  ids on which \<^verbatim>\<open>createMetaDataBlock\<close> returns, \<^verbatim>\<open>writeFile\<close> writes the four bytes
  \<open>0 0 0 1\<close> and then the bytes of every block in allocation order (the blocks keep their
  order, addresses and sizes); the first block is the 32-byte header, which holds
  \<^verbatim>\<open>Bud1\<close>, then the metadata block's address 32, its size 2048, and 32 again, each as a
  big-endian 32-bit value, and 16 zero bytes.
\<close>

theorem writeFile_header:
  assumes "reachable a" and "createMetaDataBlock a bTreeBlockId = Inr a'"
  shows "writeFile a' = [0, 0, 0, 1] @ concat (map bytes (blocks a'))
       \<and> layout a' = layout a
       \<and> hd (layout a') = (0, 32)
       \<and> bytes (blocks a' ! 0)
           = map of_char ''Bud1'' @ be32 32 @ be32 2048 @ be32 32 @ replicate 16 0
       \<and> addr (blocks a' ! 1) = 32 \<and> length (bytes (blocks a' ! 1)) = 2048
       \<and> take 36 (writeFile a')
           = [0, 0, 0, 1] @ map of_char ''Bud1'' @ be32 32 @ be32 2048 @ be32 32 @ replicate 16 0"
proof -
  note inv = reachable_inv[OF assms(1)]
  from createMetaDataBlock_header[OF assms] obtain metaData where
    bl: "blocks a' = (blocks a)[1 := metaData, 0 := putAt (newBlock 0 32) headerBytes]"
    and sh: "shaped 32 2048 metaData" by blast
  from inv obtain x y rest where xs: "blocks a = x # y # rest"
    by (cases "blocks a"; cases "tl (blocks a)") auto
  have x: "x = newBlock 0 32" and y: "addr y = 32" "length (bytes y) = 2048"
    using inv xs by simp_all
  have bl': "blocks a' = putAt (newBlock 0 32) headerBytes # metaData # rest"
    by (simp add: bl xs)
  have hb: "bytes (putAt (newBlock 0 32) headerBytes)
            = map of_char ''Bud1'' @ be32 32 @ be32 2048 @ be32 32 @ replicate 16 0"
    by (simp add: bytes_page headerBytes_def)
  have wf: "writeFile a' = [0, 0, 0, 1] @ concat (map bytes (blocks a'))"
    by (simp add: writeFile_def be32_1)
  have lay: "layout a' = layout a"
    using sh y by (simp add: layout_def bl' xs x shaped_def) (simp add: newBlock_def)
  have hdl: "hd (layout a') = (0, 32)" by (simp add: layout_def bl')
  have tk: "take 36 (writeFile a')
      = [0, 0, 0, 1] @ map of_char ''Bud1'' @ be32 32 @ be32 2048 @ be32 32 @ replicate 16 0"
    unfolding wf bl' by (simp add: hb)
  show ?thesis using wf lay hdl hb sh tk by (simp add: bl' shaped_def)
qed

theorem writeFile_header_witness:
  "reachable (buddy (finishedTree (be32 0 @ be32 0) 0 [] 0))
   \<and> \<not> isl (createMetaDataBlock (buddy (finishedTree (be32 0 @ be32 0) 0 [] 0)) 2)
   \<and> take 36 (writeFile (projr (createMetaDataBlock (buddy (finishedTree (be32 0 @ be32 0) 0 [] 0)) 2)))
       = [0, 0, 0, 1, 0x42, 0x75, 0x64, 0x31, 0, 0, 0, 0x20, 0, 0, 8, 0, 0, 0, 0, 0x20]
         @ replicate 16 0"
proof -
  note r = reachable_finishedTree[of "be32 0 @ be32 0" 0 "[]" 0]
  obtain a' where c: "createMetaDataBlock (buddy (finishedTree (be32 0 @ be32 0) 0 [] 0)) 2 = Inr a'"
    using createMetaDataBlock_finishedTree[of "be32 0 @ be32 0" 0 "[]" 0 2] by blast
  from writeFile_header[OF r c] have
    "take 36 (writeFile a')
      = [0, 0, 0, 1] @ map of_char ''Bud1'' @ be32 32 @ be32 2048 @ be32 32 @ replicate 16 0"
    by blast
  moreover have "[0, 0, 0, 1] @ map of_char ''Bud1'' @ be32 32 @ be32 2048 @ be32 32
      = [0, 0, 0, 1, 0x42, 0x75, 0x64, 0x31, 0, 0, 0, 0x20, 0, 0, 8, 0, 0, 0, 0, 0x20 :: u8]"
    by (simp add: be32_def)
  ultimately show ?thesis using r by (simp add: c)
qed

text \<open>
  C1. Run \<^verbatim>\<open>main\<close> with background width 600 and height 400, volume name \<^verbatim>\<open>Vol\<close>, icon
  size 128, text size 16 and the one file entry \<^verbatim>\<open>icon.png\<close> at (100, 100); the program
  name, the output name and the background file name are arbitrary, the last of at most 1670
  bytes so that its alias record fits the leaf page. The run succeeds. The leaf page (block 1)
  decodes to exactly seven entries in insertion order: \<^verbatim>\<open>BKGD\<close> (blob), \<^verbatim>\<open>ICVO\<close> (bool 1),
  \<^verbatim>\<open>fwi0\<close> (blob with top, left, bottom, right = 200, 300, 600, 900), \<^verbatim>\<open>icvo\<close> (blob with
  icon size 128), \<^verbatim>\<open>icvt\<close> (short 16), \<^verbatim>\<open>pict\<close> (blob, the alias record) and \<^verbatim>\<open>Iloc\<close> of
  \<^verbatim>\<open>icon.png\<close> (blob with centre 100, 100). The master block (block 2) holds root page 1,
  depth 0, entry count 7, node count 1 and page size 4096.
\<close>

theorem main_example:
  assumes "length bg \<le> 1670"
  shows "\<exists>a aliasFile leaf master.
           mainBuddy [prog, out, bg, ''600'', ''400'', ''Vol'', ''128'', ''16'',
                      ''icon.png'', ''100'', ''100''] = Inr a
         \<and> main [prog, out, bg, ''600'', ''400'', ''Vol'', ''128'', ''16'',
                  ''icon.png'', ''100'', ''100''] = Inr (out, writeFile a)
         \<and> createAliasFile ''Vol'' bg = Inr aliasFile
         \<and> getBlock a 1 = Inr leaf
         \<and> decodeLeaf (bytes leaf)
           = Some [(map char16 ''.'', map of_char ''BKGD'',
                      Blob (map of_char ''PctB'' @ be32 (word_of_nat (length aliasFile))
                            @ replicate 4 0)),
                   (map char16 ''.'', map of_char ''ICVO'', Bool 1),
                   (map char16 ''.'', map of_char ''fwi0'',
                      Blob (be16 200 @ be16 300 @ be16 600 @ be16 900 @ map of_char ''icnv''
                            @ replicate 4 0)),
                   (map char16 ''.'', map of_char ''icvo'',
                      Blob (map of_char ''icv4'' @ be16 128 @ map of_char ''none''
                            @ map of_char ''botm'' @ replicate 12 0)),
                   (map char16 ''.'', map of_char ''icvt'', Short 16),
                   (map char16 ''.'', map of_char ''pict'', Blob aliasFile),
                   (map char16 ''icon.png'', map of_char ''Iloc'',
                      Blob (be32 100 @ be32 100 @ be16 0xffff @ be16 0xffff @ be16 0xffff
                            @ [0, 0]))]
         \<and> getBlock a 2 = Inr master
         \<and> rd32 (bytes master) = 1
         \<and> rd32 (drop 4 (bytes master)) = 0
         \<and> rd32 (drop 8 (bytes master)) = 7
         \<and> rd32 (drop 12 (bytes master)) = 1
         \<and> rd32 (drop 16 (bytes master)) = 4096"
proof -
  let ?argv = "[prog, out, bg, ''600'', ''400'', ''Vol'', ''128'', ''16'',
                ''icon.png'', ''100'', ''100'']"
  from mainBuddy_example[OF assms, of prog out] obtain aliasFile where
    al: "createAliasFile ''Vol'' bg = Inr aliasFile"
    and la: "length aliasFile \<le> 1833"
    and run: "mainBuddy ?argv
       = createMetaDataBlock
           (buddy (finishedTree (be32 0 @ be32 0 @ concat (map encodeEntry (exampleCalls aliasFile)))
                     7 [] 7)) 2"
    by blast
  define pre where "pre = be32 0 @ be32 0 @ concat (map encodeEntry (exampleCalls aliasFile))"
  define a where "a = \<lparr>blocks = [putAt (newBlock 0 32) headerBytes,
                    putAt (newBlock 32 2048) (metaBytes (buddy (finishedTree pre 7 [] 7)) 2),
                    finishedLeaf pre 7,
                    putAt (newBlock 4128 32) (masterBytes 7 @ [])],
          curAddr = 0\<rparr>"
  have r: "mainBuddy ?argv = Inr a"
    unfolding run pre_def[symmetric] a_def by (rule createMetaDataBlock_finishedTree)
  have m: "main ?argv = Inr (out, writeFile a)" by (simp add: main_def r)
  have g1: "getBlock a 1 = Inr (finishedLeaf pre 7)" unfolding a_def by (rule getBlock_list)
  have g2: "getBlock a 2 = Inr (putAt (newBlock 4128 32) (masterBytes 7 @ []))"
    unfolding a_def by (rule getBlock_list)
  have n7: "(7 :: u32) = word_of_nat (length (exampleCalls aliasFile))"
    by (simp add: exampleCalls_def)
  have "decodeLeaf (bytes (finishedLeaf pre (word_of_nat (length (exampleCalls aliasFile)))))
        = Some (map entryOf (exampleCalls aliasFile))"
    unfolding pre_def
    by (rule decodeLeaf_finishedLeaf)
       (use la in \<open>simp_all add: length_exampleCalls\<close>, simp add: exampleCalls_def)
  then have dl: "decodeLeaf (bytes (finishedLeaf pre 7)) = Some (map entryOf (exampleCalls aliasFile))"
    unfolding n7[symmetric] .
  have ents: "map entryOf (exampleCalls aliasFile)
      = [(map char16 ''.'', map of_char ''BKGD'',
                      Blob (map of_char ''PctB'' @ be32 (word_of_nat (length aliasFile))
                            @ replicate 4 0)),
                   (map char16 ''.'', map of_char ''ICVO'', Bool 1),
                   (map char16 ''.'', map of_char ''fwi0'',
                      Blob (be16 200 @ be16 300 @ be16 600 @ be16 900 @ map of_char ''icnv''
                            @ replicate 4 0)),
                   (map char16 ''.'', map of_char ''icvo'',
                      Blob (map of_char ''icv4'' @ be16 128 @ map of_char ''none''
                            @ map of_char ''botm'' @ replicate 12 0)),
                   (map char16 ''.'', map of_char ''icvt'', Short 16),
                   (map char16 ''.'', map of_char ''pict'', Blob aliasFile),
                   (map char16 ''icon.png'', map of_char ''Iloc'',
                      Blob (be32 100 @ be32 100 @ be16 0xffff @ be16 0xffff @ be16 0xffff
                            @ [0, 0]))]"
    by (simp add: exampleCalls_def ilocBytes_def)
  have mb: "bytes (putAt (newBlock 4128 32) (masterBytes 7 @ []))
            = be32 1 @ be32 0 @ be32 7 @ be32 1 @ be32 4096 @ replicate 12 0"
    by (simp add: bytes_page) (simp add: masterBytes_def)
  have m0: "rd32 (bytes (putAt (newBlock 4128 32) (masterBytes 7 @ []))) = 1"
    unfolding mb by (rule rd32_be32)
  have m1: "rd32 (drop 4 (bytes (putAt (newBlock 4128 32) (masterBytes 7 @ [])))) = 0"
    unfolding mb by simp
  have m2: "rd32 (drop 8 (bytes (putAt (newBlock 4128 32) (masterBytes 7 @ [])))) = 7"
    unfolding mb by simp
  have m3: "rd32 (drop 12 (bytes (putAt (newBlock 4128 32) (masterBytes 7 @ [])))) = 1"
    unfolding mb by simp
  have m4: "rd32 (drop 16 (bytes (putAt (newBlock 4128 32) (masterBytes 7 @ [])))) = 4096"
    unfolding mb by simp
  show ?thesis
    apply (rule exI[of _ a])
    apply (rule exI[of _ aliasFile])
    apply (rule exI[of _ "finishedLeaf pre 7"])
    apply (rule exI[of _ "putAt (newBlock 4128 32) (masterBytes 7 @ [])"])
    apply (intro conjI)
              apply (rule r)
             apply (rule m)
            apply (rule al)
           apply (rule g1)
          apply (rule dl[unfolded ents])
         apply (rule g2)
        apply (rule m0)
       apply (rule m1)
      apply (rule m2)
     apply (rule m3)
    apply (rule m4)
    done
qed

theorem main_example_witness:
  "length ''bg.png'' \<le> 1670 \<and>
   (\<exists>a aliasFile leaf master.
           mainBuddy [''forge_ds_store'', ''out'', ''bg.png'', ''600'', ''400'', ''Vol'', ''128'', ''16'',
                      ''icon.png'', ''100'', ''100''] = Inr a
         \<and> main [''forge_ds_store'', ''out'', ''bg.png'', ''600'', ''400'', ''Vol'', ''128'', ''16'',
                  ''icon.png'', ''100'', ''100''] = Inr (''out'', writeFile a)
         \<and> createAliasFile ''Vol'' ''bg.png'' = Inr aliasFile
         \<and> getBlock a 1 = Inr leaf
         \<and> decodeLeaf (bytes leaf)
           = Some [(map char16 ''.'', map of_char ''BKGD'',
                      Blob (map of_char ''PctB'' @ be32 (word_of_nat (length aliasFile))
                            @ replicate 4 0)),
                   (map char16 ''.'', map of_char ''ICVO'', Bool 1),
                   (map char16 ''.'', map of_char ''fwi0'',
                      Blob (be16 200 @ be16 300 @ be16 600 @ be16 900 @ map of_char ''icnv''
                            @ replicate 4 0)),
                   (map char16 ''.'', map of_char ''icvo'',
                      Blob (map of_char ''icv4'' @ be16 128 @ map of_char ''none''
                            @ map of_char ''botm'' @ replicate 12 0)),
                   (map char16 ''.'', map of_char ''icvt'', Short 16),
                   (map char16 ''.'', map of_char ''pict'', Blob aliasFile),
                   (map char16 ''icon.png'', map of_char ''Iloc'',
                      Blob (be32 100 @ be32 100 @ be16 0xffff @ be16 0xffff @ be16 0xffff
                            @ [0, 0]))]
         \<and> getBlock a 2 = Inr master
         \<and> rd32 (bytes master) = 1
         \<and> rd32 (drop 4 (bytes master)) = 0
         \<and> rd32 (drop 8 (bytes master)) = 7
         \<and> rd32 (drop 12 (bytes master)) = 1
         \<and> rd32 (drop 16 (bytes master)) = 4096)"
  by (rule conjI, simp, rule main_example, simp)

end
